theory Spec2Isabelle
  imports Complex_Main "HOL-Library.AList" "HOL-Library.Sublist"
begin

section \<open>The result ledger of the LIBERO evaluation\<close>

text \<open>
  Both \<^verbatim>\<open>domains/LIBERO/evaluate.py\<close> and \<^verbatim>\<open>octo/domains/LIBERO/evaluate.py\<close>
  keep the dictionary \<^verbatim>\<open>all_tasks_success_rate\<close>, load it from a JSON file when that
  file exists, skip every task whose name is a key of it, and after each task they
  evaluate assign its value, print the dictionary and dump it. The two files differ in
  the rollout that produces a task's value (a pair of a rate and the list of outcomes in
  the first file, a rate in the second) and in the \<^verbatim>\<open>print\<close> between the assignment and
  the dump: line 127 of the first file subscripts every value of the dictionary with
  \<^verbatim>\<open>[0]\<close>, line 195 of the second prints the dictionary as it is. The value type is
  a parameter \<open>'v\<close>, and the \<^verbatim>\<open>print\<close> is the parameter \<open>report\<close> of the loop.

  A Python dictionary keeps its keys in insertion order and \<^verbatim>\<open>json.dump\<close> writes them in
  that order, so the ledger is an association list; assigning to a key is
  \<^const>\<open>AList.update\<close>, which replaces in place or appends.
\<close>

datatype error =
  JSONDecodeError | ValueError | IndexError | ZeroDivisionError | NameError | TypeError | KeyError

type_synonym 'v ledger = "(string \<times> 'v) list"

text \<open>
  What \<^verbatim>\<open>os.path.exists\<close> and \<^verbatim>\<open>json.load\<close> see at the path of the result file: no
  file, a file whose text \<^verbatim>\<open>json.load\<close> rejects, or a file holding a JSON object.
  \<^verbatim>\<open>json.dump\<close> followed by \<^verbatim>\<open>json.load\<close> gives back the dictionary that was written.
\<close>

datatype 'v result_file = Missing | Malformed | Json "'v ledger"

text \<open>
  The values \<^verbatim>\<open>json.load\<close> can put into the dictionary of the first file, and the ones
  line 126 assigns.
\<close>

datatype json =
  JNull | JBool bool | JNumber real | JString string | JArray "json list"
  | JObject "(string \<times> json) list"

record task =
  name :: string
  language :: string
  problem_folder :: string
  bddl_file :: string

text \<open>Lines 46-50 (49-53 in the octo file): no \<^verbatim>\<open>try\<close> surrounds \<^verbatim>\<open>json.load\<close>.\<close>

definition load_ledger :: "'v result_file \<Rightarrow> error + 'v ledger" where
  "load_ledger f =
     (case f of
        Missing \<Rightarrow> Inr []
      | Malformed \<Rightarrow> Inl JSONDecodeError
      | Json d \<Rightarrow> Inr d)"

text \<open>\<^verbatim>\<open>list.index\<close>: the first position of the element, or \<^verbatim>\<open>ValueError\<close>.\<close>

fun index_of :: "'a list \<Rightarrow> 'a \<Rightarrow> error + nat" where
  "index_of [] x = Inl ValueError"
| "index_of (y # ys) x =
     (if y = x then Inr 0
      else case index_of ys x of Inl e \<Rightarrow> Inl e | Inr i \<Rightarrow> Inr (Suc i))"

text \<open>
  Line 64 (67): \<^verbatim>\<open>[all_task_names.index(task_name[:-10]) for task_name in tasks]\<close>.
  The slice \<^verbatim>\<open>s[:-10]\<close> drops the last ten characters and is empty for a shorter string.
\<close>

fun resolve_tasks :: "string list \<Rightarrow> string list \<Rightarrow> error + nat list" where
  "resolve_tasks all_task_names [] = Inr []"
| "resolve_tasks all_task_names (task_name # rest) =
     (case index_of all_task_names (take (length task_name - 10) task_name) of
        Inl e \<Rightarrow> Inl e
      | Inr i \<Rightarrow>
          (case resolve_tasks all_task_names rest of
             Inl e \<Rightarrow> Inl e
           | Inr ids \<Rightarrow> Inr (i # ids)))"

definition get_task :: "task list \<Rightarrow> nat \<Rightarrow> error + task" where
  "get_task task_suite i =
     (if i < length task_suite then Inr (task_suite ! i) else Inl IndexError)"

text \<open>
  The subscript \<^verbatim>\<open>v[0]\<close> on a value loaded from JSON: the first element of a list
  or of a string that is not empty, \<^verbatim>\<open>IndexError\<close> on an empty one, \<^verbatim>\<open>KeyError\<close> on a
  dictionary (its keys are strings), \<^verbatim>\<open>TypeError\<close> on a number, a boolean or
  \<^verbatim>\<open>None\<close>.
\<close>

fun subscript0 :: "json \<Rightarrow> error + json" where
  "subscript0 (JArray []) = Inl IndexError"
| "subscript0 (JArray (x # xs)) = Inr x"
| "subscript0 (JString []) = Inl IndexError"
| "subscript0 (JString (c # cs)) = Inr (JString [c])"
| "subscript0 (JObject kvs) = Inl KeyError"
| "subscript0 JNull = Inl TypeError"
| "subscript0 (JBool b) = Inl TypeError"
| "subscript0 (JNumber x) = Inl TypeError"

text \<open>
  Line 127 of \<^verbatim>\<open>domains/LIBERO/evaluate.py\<close>, the dictionary comprehension
  \<^verbatim>\<open>{key: all_tasks_success_rate[key][0] for key in all_tasks_success_rate}\<close> inside
  \<^verbatim>\<open>print\<close>: it visits the entries in order and raises at the first value that cannot
  be subscripted. \<open>None\<close> when it prints.
\<close>

fun print_rates :: "json ledger \<Rightarrow> error option" where
  "print_rates [] = None"
| "print_rates ((k, v) # rest) =
     (case subscript0 v of Inl e \<Rightarrow> Some e | Inr x \<Rightarrow> print_rates rest)"

text \<open>
  Line 195 of \<^verbatim>\<open>octo/domains/LIBERO/evaluate.py\<close>, \<^verbatim>\<open>print (all_tasks_success_rate)\<close>:
  it prints whatever the values are.
\<close>

definition print_ledger :: "'v ledger \<Rightarrow> error option" where
  "print_ledger l = None"

text \<open>
  Lines 94-126 of the first file with \<^verbatim>\<open>total_runs = 1\<close>: the value
  \<^verbatim>\<open>[success_count / total_runs, episode_results]\<close> assigned for a task whose one
  episode ended with \<open>success\<close>.
\<close>

definition task_entry :: "bool \<Rightarrow> json" where
  "task_entry success = JArray [JNumber (if success then 1 else 0), JArray [JBool success]]"

text \<open>
  The loop over the task ids (lines 66-129, 69-197 in the octo file). The rollout
  of one task is the parameter \<open>run_task\<close>: it reads the task, changes the world \<open>'w\<close>
  (the policy object, the simulators) and returns the value to record, or raises. The
  state is the world, the result file and the dictionary in memory. After the
  assignment (line 126, 194) comes the \<^verbatim>\<open>print\<close> (line 127, 195) and only then the dump
  (lines 128-129, 196-197), which is taken to succeed. An exception, of the rollout or
  of the \<^verbatim>\<open>print\<close>, leaves the loop with the file as the last dump wrote it.
\<close>

fun eval_loop ::
  "task list \<Rightarrow> (nat \<Rightarrow> task \<Rightarrow> 'w \<Rightarrow> 'w \<times> (error + 'v)) \<Rightarrow> ('v ledger \<Rightarrow> error option) \<Rightarrow>
   nat list \<Rightarrow> 'w \<times> 'v result_file \<times> 'v ledger \<Rightarrow>
   'w \<times> 'v result_file \<times> (error + 'v ledger)" where
  "eval_loop task_suite run_task report [] (w, f, all_rate) = (w, f, Inr all_rate)"
| "eval_loop task_suite run_task report (task_id # rest) (w, f, all_rate) =
     (case get_task task_suite task_id of
        Inl e \<Rightarrow> (w, f, Inl e)
      | Inr t \<Rightarrow>
          if name t \<in> set (map fst all_rate)
          then eval_loop task_suite run_task report rest (w, f, all_rate)
          else
            (case run_task task_id t w of
               (w', Inl e) \<Rightarrow> (w', f, Inl e)
             | (w', Inr r) \<Rightarrow>
                 (let all_rate' = AList.update (name t) r all_rate
                  in case report all_rate' of
                       Some e \<Rightarrow> (w', f, Inl e)
                     | None \<Rightarrow>
                         eval_loop task_suite run_task report rest
                           (w', Json all_rate', all_rate'))))"

text \<open>
  \<^verbatim>\<open>evaluate\<close> of the two LIBERO files, from the load of the result file on: with
  \<open>report = print_rates\<close> it is the first file, with \<open>report = print_ledger\<close> the
  second. The file at the output path (computed from \<^verbatim>\<open>model_path\<close>,
  \<^verbatim>\<open>checkpoint_step\<close>, \<^verbatim>\<open>seed\<close>, and in the octo file \<^verbatim>\<open>split\<close>) is the
  \<open>'v result_file\<close> of the state; \<open>task_split\<close> is the pair unpickled from
  \<^verbatim>\<open>task_split.pkl\<close>. The parameter \<open>tasks\<close> is rebound on lines 60-64 (63-67)
  before it is read.
\<close>

definition evaluate ::
  "task list \<Rightarrow> string list \<times> string list \<Rightarrow> (nat \<Rightarrow> task \<Rightarrow> 'w \<Rightarrow> 'w \<times> (error + 'v)) \<Rightarrow>
   ('v ledger \<Rightarrow> error option) \<Rightarrow> 't \<Rightarrow> string \<Rightarrow> 'w \<times> 'v result_file \<Rightarrow>
   'w \<times> 'v result_file \<times> (error + 'v ledger)" where
  "evaluate task_suite task_split run_task report tasks split s =
     (case s of (w, f) \<Rightarrow>
        (case load_ledger f of
           Inl e \<Rightarrow> (w, f, Inl e)
         | Inr all_tasks_success_rate \<Rightarrow>
             (let all_task_names = map name task_suite in
              case task_split of (train_tasks, test_tasks) \<Rightarrow>
                (let tasks = (if split = ''train'' then train_tasks else test_tasks) in
                 case resolve_tasks all_task_names tasks of
                   Inl e \<Rightarrow> (w, f, Inl e)
                 | Inr tasks \<Rightarrow>
                     eval_loop task_suite run_task report tasks
                       (w, f, all_tasks_success_rate)))))"

section \<open>The vectorized rollout of one task\<close>

text \<open>
  Lines 155-197 of \<^verbatim>\<open>octo/domains/LIBERO/evaluate.py\<close>. The policy object and the pool
  of simulators are outside the repository's evaluation code, so they are parameters:
  \<open>model_step\<close> is \<^verbatim>\<open>model.step(images)\<close> (the new policy state, the processed
  actions, the attention weights), \<open>venv_step\<close> is \<^verbatim>\<open>env.step(actions)\<close> followed by the
  stacking of the flipped agent-view images (the new pool state, the images, the array
  \<^verbatim>\<open>dones\<close>). The pool answers with one flag per worker, so \<^verbatim>\<open>dones[k]\<close> is read as a
  function of the slot index.
\<close>

record ('e, 'm, 'img, 'act, 'att) venv_ops =
  model_step :: "'m \<Rightarrow> 'img \<Rightarrow> 'm \<times> 'act \<times> 'att"
  venv_step :: "'e \<Rightarrow> 'act \<Rightarrow> 'e \<times> 'img \<times> (nat \<Rightarrow> bool)"

text \<open>The variables the loop reads and writes.\<close>

record ('e, 'm, 'img, 'att) rollout_state =
  env :: 'e
  model :: 'm
  obs :: 'img
  dones :: "nat \<Rightarrow> bool"
  images :: 'img
  images_history :: "'img list"
  images_with_attention_weights :: "('img \<times> 'att) list"
  attention_history :: "'att list"
  finished_tasks :: "bool list"
  episode_length :: "nat list"

definition max_step :: nat where
  "max_step = 600"

text \<open>Lines 175-177, for one slot \<open>k\<close> of \<^verbatim>\<open>range(env_num)\<close>.\<close>

definition check_slot ::
  "(nat \<Rightarrow> bool) \<Rightarrow> nat \<Rightarrow> nat \<Rightarrow> bool list \<times> nat list \<Rightarrow> bool list \<times> nat list" where
  "check_slot ds step k fl =
     (case fl of (fin, len) \<Rightarrow>
        if ds k then (fin[k := True], len[k := min (step + 1) (len ! k)]) else (fin, len))"

text \<open>
  Lines 166-177: one policy call, one step of all simulators, then the loop over the
  slots. The overlay of line 168 is kept as the pair it is computed from. Both lists
  have length \<open>env_num\<close> from line 161 on (\<open>rollout_lengths\<close> below), so the
  indices of \<open>check_slot\<close> are in range.
\<close>

definition rollout_step ::
  "('e, 'm, 'img, 'act, 'att) venv_ops \<Rightarrow> nat \<Rightarrow> nat \<Rightarrow>
   ('e, 'm, 'img, 'att) rollout_state \<Rightarrow> ('e, 'm, 'img, 'att) rollout_state" where
  "rollout_step ops env_num step st =
     (case model_step ops (model st) (images st) of (m', actions, action_attention_weights) \<Rightarrow>
      case venv_step ops (env st) actions of (e', obs', dones') \<Rightarrow>
      case fold (check_slot dones' step) [0..<env_num] (finished_tasks st, episode_length st) of
        (fin, len) \<Rightarrow>
          st\<lparr>env := e', model := m', obs := obs', dones := dones',
             images_with_attention_weights :=
               images_with_attention_weights st @ [(images st, action_attention_weights)],
             attention_history := attention_history st @ [action_attention_weights],
             finished_tasks := fin, episode_length := len\<rparr>)"

text \<open>Lines 180-181, reached when line 179 did not leave the loop.\<close>

definition observe ::
  "('e, 'm, 'img, 'att) rollout_state \<Rightarrow> ('e, 'm, 'img, 'att) rollout_state" where
  "observe st = st\<lparr>images := obs st, images_history := images_history st @ [obs st]\<rparr>"

text \<open>\<^verbatim>\<open>all(finished_tasks)\<close> of line 178.\<close>

definition all_finished :: "('e, 'm, 'img, 'att) rollout_state \<Rightarrow> bool" where
  "all_finished st = list_all (\<lambda>b. b) (finished_tasks st)"

text \<open>The loop \<^verbatim>\<open>for step in range(max_step)\<close> of line 165, entered at index \<open>step\<close>.\<close>

function rollout_loop ::
  "('e, 'm, 'img, 'act, 'att) venv_ops \<Rightarrow> nat \<Rightarrow> nat \<Rightarrow>
   ('e, 'm, 'img, 'att) rollout_state \<Rightarrow> ('e, 'm, 'img, 'att) rollout_state" where
  "rollout_loop ops env_num step st =
     (if step < max_step then
        (let st' = rollout_step ops env_num step st in
         if all_finished st' then st'
         else rollout_loop ops env_num (Suc step) (observe st'))
      else st)"
  by pat_completeness auto
termination
  by (relation "measure (\<lambda>(ops, env_num, step, st). max_step - step)") auto

text \<open>
  The same loop, returning the state at line 178 of every iteration it runs, in order:
  the history the claims about "later steps" speak of.
\<close>

function rollout_trace ::
  "('e, 'm, 'img, 'act, 'att) venv_ops \<Rightarrow> nat \<Rightarrow> nat \<Rightarrow>
   ('e, 'm, 'img, 'att) rollout_state \<Rightarrow> ('e, 'm, 'img, 'att) rollout_state list" where
  "rollout_trace ops env_num step st =
     (if step < max_step then
        (let st' = rollout_step ops env_num step st in
         if all_finished st' then [st']
         else st' # rollout_trace ops env_num (Suc step) (observe st'))
      else [])"
  by pat_completeness auto
termination
  by (relation "measure (\<lambda>(ops, env_num, step, st). max_step - step)") auto

text \<open>Lines 155-163: the state at the head of the loop.\<close>

definition rollout_init ::
  "'e \<Rightarrow> 'm \<Rightarrow> 'img \<Rightarrow> nat \<Rightarrow> ('e, 'm, 'img, 'att) rollout_state" where
  "rollout_init e m obs0 env_num =
     \<lparr>env = e, model = m, obs = obs0, dones = (\<lambda>k. False), images = obs0,
      images_history = [obs0], images_with_attention_weights = [], attention_history = [],
      finished_tasks = replicate env_num False,
      episode_length = replicate env_num max_step\<rparr>"

definition rollout ::
  "('e, 'm, 'img, 'act, 'att) venv_ops \<Rightarrow> nat \<Rightarrow> 'e \<Rightarrow> 'm \<Rightarrow> 'img \<Rightarrow>
   ('e, 'm, 'img, 'att) rollout_state" where
  "rollout ops env_num e m obs0 = rollout_loop ops env_num 0 (rollout_init e m obs0 env_num)"

text \<open>
  Line 183: \<^verbatim>\<open>sum(finished_tasks) / env_num\<close>. The quotient is taken in the reals; the
  float the program stores is its rounding, and 0 and 1 are floats.
\<close>

definition success_rate :: "bool list \<Rightarrow> nat \<Rightarrow> error + real" where
  "success_rate fin env_num =
     (if env_num = 0 then Inl ZeroDivisionError
      else Inr (real (length (filter (\<lambda>b. b) fin)) / real env_num))"

text \<open>Line 188: the outcome in the name of slot \<open>i\<close>'s video.\<close>

definition slot_result :: "('e, 'm, 'img, 'att) rollout_state \<Rightarrow> nat \<Rightarrow> string" where
  "slot_result st i = (if finished_tasks st ! i then ''success'' else ''fail'')"

text \<open>
  The length recorded for slot \<open>i\<close> before iteration \<open>a\<close> of a trace: the initial
  value of line 163, or the value the iteration before left.
\<close>

definition length_before ::
  "('e, 'm, 'img, 'att) rollout_state list \<Rightarrow> nat \<Rightarrow> nat \<Rightarrow> nat" where
  "length_before tr i a = (if a = 0 then max_step else episode_length (tr ! (a - 1)) ! i)"


text \<open>The state iteration \<open>b\<close> of a trace starts from, up to the images: the state the
  loop was entered with, or the one the iteration before left.\<close>

definition slot_before ::
  "('e, 'm, 'img, 'att) rollout_state \<Rightarrow> ('e, 'm, 'img, 'att) rollout_state list \<Rightarrow> nat \<Rightarrow>
   ('e, 'm, 'img, 'att) rollout_state" where
  "slot_before st tr b = (if b = 0 then st else tr ! (b - 1))"

text \<open>
  The states at line 178 of the iterations a whole rollout runs, from the state of
  lines 155-163.
\<close>

definition rollout_history ::
  "('e, 'm, 'img, 'act, 'att) venv_ops \<Rightarrow> nat \<Rightarrow> 'e \<Rightarrow> 'm \<Rightarrow> 'img \<Rightarrow>
   ('e, 'm, 'img, 'att) rollout_state list" where
  "rollout_history ops env_num e m obs0 =
     rollout_trace ops env_num 0 (rollout_init e m obs0 env_num)"

section \<open>The episode of the single-environment driver\<close>

text \<open>
  Lines 97-126 of \<^verbatim>\<open>domains/LIBERO/evaluate.py\<close>. \<open>policy\<close> is \<^verbatim>\<open>model.step(image)\<close>
  followed by the concatenation of the three parts of the action, \<open>sim_step\<close> is
  \<^verbatim>\<open>env.step\<close> followed by the flip of the agent-view image: the new simulator, the
  image, the reward and the flag \<^verbatim>\<open>done\<close>.
\<close>

record ('e, 'm, 'img) single_ops =
  policy :: "'m \<Rightarrow> 'img \<Rightarrow> 'm \<times> real list"
  sim_step :: "'e \<Rightarrow> real list \<Rightarrow> 'e \<times> 'img \<times> real \<times> bool"

text \<open>
  The variables of one run. \<^verbatim>\<open>reward\<close> is not bound before the first call of
  \<^verbatim>\<open>env.step\<close>: \<open>None\<close> until then. \<open>done_flag\<close> is the variable \<^verbatim>\<open>done\<close>, \<open>frames\<close>
  the list \<^verbatim>\<open>images\<close>, \<open>sim\<close> and \<open>agent\<close> the objects \<^verbatim>\<open>env\<close> and \<^verbatim>\<open>model\<close>.
\<close>

record ('e, 'm, 'img) episode_state =
  sim :: 'e
  agent :: 'm
  image :: 'img
  frames :: "'img list"
  reward :: "real option"
  done_flag :: bool

text \<open>Lines 107-114, the body of the loop up to the test of \<^verbatim>\<open>done\<close>.\<close>

definition episode_step ::
  "('e, 'm, 'img) single_ops \<Rightarrow> ('e, 'm, 'img) episode_state \<Rightarrow> ('e, 'm, 'img) episode_state" where
  "episode_step ops st =
     (case policy ops (agent st) (image st) of (m', action) \<Rightarrow>
      case sim_step ops (sim st) action of (e', image', reward', done') \<Rightarrow>
        \<lparr>sim = e', agent = m', image = image', frames = frames st @ [image'],
         reward = Some reward', done_flag = done'\<rparr>)"

text \<open>The reward \<^verbatim>\<open>env.step\<close> returns when the loop body runs in state \<open>st\<close>.\<close>

definition step_reward :: "('e, 'm, 'img) single_ops \<Rightarrow> ('e, 'm, 'img) episode_state \<Rightarrow> real" where
  "step_reward ops st =
     (case policy ops (agent st) (image st) of (m', action) \<Rightarrow>
      case sim_step ops (sim st) action of (e', image', reward', done') \<Rightarrow> reward')"

text \<open>The loop \<^verbatim>\<open>for t in range(600)\<close> of line 105, entered at index \<open>t\<close>.\<close>

function episode_loop ::
  "('e, 'm, 'img) single_ops \<Rightarrow> nat \<Rightarrow> ('e, 'm, 'img) episode_state \<Rightarrow>
   ('e, 'm, 'img) episode_state" where
  "episode_loop ops t st =
     (if t < 600 then
        (let st' = episode_step ops st in
         if done_flag st' then st' else episode_loop ops (Suc t) st')
      else st)"
  by pat_completeness auto
termination
  by (relation "measure (\<lambda>(ops, t, st). 600 - t)") auto

text \<open>Lines 102-104: the state at the head of the loop.\<close>

definition episode_init :: "'e \<Rightarrow> 'm \<Rightarrow> 'img \<Rightarrow> ('e, 'm, 'img) episode_state" where
  "episode_init e m image0 =
     \<lparr>sim = e, agent = m, image = image0, frames = [image0], reward = None, done_flag = False\<rparr>"

text \<open>Line 117: \<^verbatim>\<open>success = (reward > 0)\<close>, a \<^verbatim>\<open>NameError\<close> were \<^verbatim>\<open>reward\<close> unbound.\<close>

definition episode_success :: "('e, 'm, 'img) episode_state \<Rightarrow> error + bool" where
  "episode_success st = (case reward st of None \<Rightarrow> Inl NameError | Some r \<Rightarrow> Inr (0 < r))"

definition run_episode ::
  "('e, 'm, 'img) single_ops \<Rightarrow> 'e \<Rightarrow> 'm \<Rightarrow> 'img \<Rightarrow> error + bool" where
  "run_episode ops e m image0 = episode_success (episode_loop ops 0 (episode_init e m image0))"

section \<open>The episode of the SimplerEnv driver\<close>

text \<open>
  Lines 104-142 of \<^verbatim>\<open>scripts/evaluate.py\<close>. The processed action is a dictionary of
  arrays; \<open>terminate_episode\<close> is the entry \<^verbatim>\<open>action["terminate_episode"][0]\<close> that
  line 122 compares with zero. The comparison is a sign test, exact on floats.
\<close>

record action =
  world_vector :: "real list"
  rot_axangle :: "real list"
  gripper :: "real list"
  terminate_episode :: real

text \<open>
  The policy and the environment, as the loop calls them: \<^verbatim>\<open>model.step(image,
  instruction)\<close>, \<^verbatim>\<open>env.step\<close> (the new environment, the observation, the reward,
  \<^verbatim>\<open>success\<close>, \<^verbatim>\<open>truncated\<close>), \<^verbatim>\<open>env.advance_to_next_subtask()\<close>,
  \<^verbatim>\<open>env.get_language_instruction()\<close>, \<^verbatim>\<open>env.is_final_subtask()\<close> and
  \<^verbatim>\<open>get_image_from_maniskill2_obs_dict(env, obs)\<close>.
\<close>

record ('e, 'm, 'o, 'img) simpler_ops =
  policy_step :: "'m \<Rightarrow> 'img \<Rightarrow> string \<Rightarrow> 'm \<times> action"
  simpler_step :: "'e \<Rightarrow> real list \<Rightarrow> 'e \<times> 'o \<times> real \<times> bool \<times> bool"
  advance_to_next_subtask :: "'e \<Rightarrow> 'e"
  get_language_instruction :: "'e \<Rightarrow> string"
  env_is_final_subtask :: "'e \<Rightarrow> bool"
  get_image :: "'e \<Rightarrow> 'o \<Rightarrow> 'img"

record ('e, 'm, 'img) simpler_state =
  senv :: 'e
  smodel :: 'm
  simage :: 'img
  simages :: "'img list"
  instruction :: string
  is_final_subtask :: bool
  predicted_terminated :: bool
  success :: bool
  truncated :: bool
  timestep :: nat

text \<open>The action the policy gives in state \<open>st\<close> (line 121).\<close>

definition policy_action ::
  "('e, 'm, 'o, 'img) simpler_ops \<Rightarrow> ('e, 'm, 'img) simpler_state \<Rightarrow> action" where
  "policy_action ops st = snd (policy_step ops (smodel st) (simage st) (instruction st))"

text \<open>The vector line 130 passes to \<^verbatim>\<open>env.step\<close>.\<close>

definition action_vector :: "action \<Rightarrow> real list" where
  "action_vector a = world_vector a @ rot_axangle a @ gripper a"

text \<open>Lines 121-142: the body of the \<^verbatim>\<open>while\<close> loop.\<close>

definition simpler_iter ::
  "('e, 'm, 'o, 'img) simpler_ops \<Rightarrow> ('e, 'm, 'img) simpler_state \<Rightarrow> ('e, 'm, 'img) simpler_state" where
  "simpler_iter ops st =
     (case policy_step ops (smodel st) (simage st) (instruction st) of (m', a) \<Rightarrow>
      case (if 0 < terminate_episode a
            then (if \<not> is_final_subtask st
                  then (False, advance_to_next_subtask ops (senv st))
                  else (True, senv st))
            else (False, senv st)) of (predicted', e1) \<Rightarrow>
      case simpler_step ops e1 (action_vector a) of (e2, obs', reward', success', truncated') \<Rightarrow>
        (let new_instruction = get_language_instruction ops e2;
             image' = get_image ops e2 obs'
         in \<lparr>senv = e2, smodel = m', simage = image', simages = simages st @ [image'],
             instruction =
               (if new_instruction \<noteq> instruction st then new_instruction else instruction st),
             is_final_subtask = env_is_final_subtask ops e2,
             predicted_terminated = predicted',
             success = success', truncated = truncated',
             timestep = timestep st + 1\<rparr>))"

text \<open>
  Line 119: \<^verbatim>\<open>while not (truncated or success)\<close>. Nothing bounds the number of
  iterations, so the loop is a partial function: \<open>None\<close> when it never ends.
\<close>

partial_function (option) simpler_while ::
  "('e, 'm, 'o, 'img) simpler_ops \<Rightarrow> ('e, 'm, 'img) simpler_state \<Rightarrow>
   ('e, 'm, 'img) simpler_state option" where
  "simpler_while ops st =
     (if truncated st \<or> success st then Some st else simpler_while ops (simpler_iter ops st))"

declare simpler_while.simps [code]

text \<open>
  Lines 104-114: the state at the head of the loop, after \<^verbatim>\<open>env.reset()\<close> and
  \<^verbatim>\<open>model.reset(instruction)\<close>, which give the environment \<open>e\<close>, the observation \<open>obs0\<close>
  and the policy state \<open>m\<close>.
\<close>

definition simpler_init ::
  "('e, 'm, 'o, 'img) simpler_ops \<Rightarrow> 'e \<Rightarrow> 'm \<Rightarrow> 'o \<Rightarrow> ('e, 'm, 'img) simpler_state" where
  "simpler_init ops e m obs0 =
     \<lparr>senv = e, smodel = m, simage = get_image ops e obs0,
      simages = [get_image ops e obs0],
      instruction = get_language_instruction ops e,
      is_final_subtask = env_is_final_subtask ops e,
      predicted_terminated = False, success = False, truncated = False, timestep = 0\<rparr>"


section \<open>Example inputs\<close>

text \<open>
  A suite of two tasks, a split file that puts the first in the training set and the
  second in the test set (the names of the split file carry the ten-character suffix
  \<^verbatim>\<open>_demo.hdf5\<close>), and a rollout that counts its calls in the world and reports one
  half.
\<close>

definition demo_suite :: "task list" where
  "demo_suite =
     [\<lparr>name = ''open_drawer'', language = ''open the drawer'',
       problem_folder = ''libero_90'', bddl_file = ''open_drawer.bddl''\<rparr>,
      \<lparr>name = ''pick_bowl'', language = ''pick the bowl'',
       problem_folder = ''libero_90'', bddl_file = ''pick_bowl.bddl''\<rparr>]"

definition demo_split :: "string list \<times> string list" where
  "demo_split = ([''open_drawer_demo.hdf5''], [''pick_bowl_demo.hdf5''])"

definition demo_run :: "nat \<Rightarrow> task \<Rightarrow> nat \<Rightarrow> nat \<times> (error + real)" where
  "demo_run task_id t w = (w + 1, Inr (1 / 2))"

text \<open>
  The same for the first file: a rollout that counts its calls and reports the value of
  a task whose one episode succeeded.
\<close>

definition demo_run_single :: "nat \<Rightarrow> task \<Rightarrow> nat \<Rightarrow> nat \<times> (error + json)" where
  "demo_run_single task_id t w = (w + 1, Inr (task_entry True))"

text \<open>
  Two pools whose state counts the steps taken. In the first, slot 0 reports done at
  step 2 and slot 1 at step 4; in the second, slot 0 reports done at step 2 and no
  other slot ever does. The policy has no state and the images are the step counts.
\<close>

definition demo_venv :: "(nat, unit, nat, unit, unit) venv_ops" where
  "demo_venv =
     \<lparr>model_step = (\<lambda>m img. (m, (), ())),
      venv_step = (\<lambda>e a. (e + 1, e + 1, (\<lambda>k. (k = 0 \<and> e = 2) \<or> (k = 1 \<and> e = 4))))\<rparr>"

definition idle_venv :: "(nat, unit, nat, unit, unit) venv_ops" where
  "idle_venv =
     \<lparr>model_step = (\<lambda>m img. (m, (), ())),
      venv_step = (\<lambda>e a. (e + 1, e + 1, (\<lambda>k. k = 0 \<and> e = 2)))\<rparr>"

text \<open>
  A simulator for the single-environment driver whose state counts the steps taken: the
  step taken in state 3 ends the episode with reward 1, every other step gives reward 0.
\<close>

definition demo_single :: "(nat, unit, nat) single_ops" where
  "demo_single =
     \<lparr>policy = (\<lambda>m img. (m, [])),
      sim_step = (\<lambda>e a. (e + 1, e + 1, (if e = 3 then 1 else 0), e = 3))\<rparr>"

text \<open>
  A SimplerEnv task of two subtasks. The environment is the pair of the subtask index
  and the number of steps taken; the second subtask is the final one, and the environment
  reports success on a step taken in the final subtask after at least two earlier steps.
  The policy predicts termination at every step.
\<close>

definition demo_simpler :: "(nat \<times> nat, unit, unit, nat) simpler_ops" where
  "demo_simpler =
     \<lparr>policy_step = (\<lambda>m img ins.
        (m, \<lparr>world_vector = [0, 0, 0], rot_axangle = [0, 0, 0], gripper = [1],
             terminate_episode = 1\<rparr>)),
      simpler_step = (\<lambda>e v. ((fst e, snd e + 1), (), 0, 1 \<le> fst e \<and> 2 \<le> snd e, False)),
      advance_to_next_subtask = (\<lambda>e. (fst e + 1, snd e)),
      get_language_instruction = (\<lambda>e. if fst e = 0 then ''open drawer'' else ''place apple''),
      env_is_final_subtask = (\<lambda>e. 1 \<le> fst e),
      get_image = (\<lambda>e ob. snd e)\<rparr>"

section \<open>Properties of the ledger\<close>

lemma update_absent:
  "k \<notin> set (map fst l) \<Longrightarrow> AList.update k v l = l @ [(k, v)]"
  by (induction l) auto

text \<open>When every task is already a key, the loop changes nothing and runs no rollout.\<close>

lemma eval_loop_skip_all:
  "\<forall>i \<in> set ids. \<exists>t. get_task task_suite i = Inr t \<and> name t \<in> set (map fst l) \<Longrightarrow>
   eval_loop task_suite run_task report ids (w, f, l) = (w, f, Inr l)"
proof (induction ids)
  case Nil
  show ?case by simp
next
  case (Cons i ids)
  from Cons.prems obtain t where
    "get_task task_suite i = Inr t" "name t \<in> set (map fst l)"
    by auto
  with Cons show ?case by simp
qed

text \<open>One pass of the loop body on a task that is not yet a key, by its three outcomes.\<close>

lemma eval_loop_new_task:
  assumes "get_task task_suite i = Inr t" and "name t \<notin> set (map fst l)"
  shows "eval_loop task_suite run_task report (i # ids) (w, f, l) =
     (case run_task i t w of
        (w', Inl e) \<Rightarrow> (w', f, Inl e)
      | (w', Inr r) \<Rightarrow>
          (case report (l @ [(name t, r)]) of
             Some e \<Rightarrow> (w', f, Inl e)
           | None \<Rightarrow>
               eval_loop task_suite run_task report ids
                 (w', Json (l @ [(name t, r)]), l @ [(name t, r)])))"
  using assms by (simp add: update_absent Let_def split: prod.splits sum.splits)

text \<open>
  A loop that ends without an exception has extended the dictionary at its end, has
  written it unless it added nothing, and leaves every task of its list a key.
\<close>

lemma eval_loop_done:
  "eval_loop task_suite run_task report ids (w, f, l) = (w', f', Inr l') \<Longrightarrow>
   prefix l l' \<and> (f' = Json l' \<or> (f' = f \<and> l' = l \<and> w' = w)) \<and>
   (\<forall>i \<in> set ids. \<exists>t. get_task task_suite i = Inr t \<and> name t \<in> set (map fst l'))"
proof (induction ids arbitrary: w f l)
  case Nil
  then show ?case by simp
next
  case (Cons i ids)
  from Cons.prems obtain t where t: "get_task task_suite i = Inr t"
    by (auto split: sum.splits)
  show ?case
  proof (cases "name t \<in> set (map fst l)")
    case True
    with Cons.prems t have
      "eval_loop task_suite run_task report ids (w, f, l) = (w', f', Inr l')"
      by simp
    from Cons.IH[OF this] True t show ?thesis
      by (auto dest: set_mono_prefix)
  next
    case False
    from Cons.prems obtain w1 r where
      r: "run_task i t w = (w1, Inr r)" and
      rest: "eval_loop task_suite run_task report ids
               (w1, Json (l @ [(name t, r)]), l @ [(name t, r)]) = (w', f', Inr l')"
      unfolding eval_loop_new_task[OF t False]
      by (auto split: sum.splits prod.splits option.splits)
    from Cons.IH[OF rest] have
      p: "prefix (l @ [(name t, r)]) l'" and
      fl: "f' = Json l' \<or> (f' = Json (l @ [(name t, r)]) \<and> l' = l @ [(name t, r)] \<and> w' = w1)" and
      a: "\<forall>i \<in> set ids. \<exists>t. get_task task_suite i = Inr t \<and> name t \<in> set (map fst l')"
      by auto
    from p have "prefix l l'" by (metis append_prefixD)
    moreover from fl have "f' = Json l'" by auto
    moreover from p have "(name t, r) \<in> set l'"
      by (auto dest: set_mono_prefix)
    then have "name t \<in> set (map fst l')" by force
    ultimately show ?thesis using a t by auto
  qed
qed

text \<open>
  Once the file holds the dictionary in memory, it holds an extension of it whenever
  the loop is left, by its end or by an exception.
\<close>

lemma eval_loop_file:
  "eval_loop task_suite run_task report ids (w, Json l, l) = (w', f', res) \<Longrightarrow>
   \<exists>l'. f' = Json l' \<and> prefix l l'"
proof (induction ids arbitrary: w l)
  case Nil
  then show ?case by auto
next
  case (Cons i ids)
  show ?case
  proof (cases "get_task task_suite i")
    case (Inl e)
    with Cons.prems show ?thesis by auto
  next
    case (Inr t)
    show ?thesis
    proof (cases "name t \<in> set (map fst l)")
      case True
      with Cons.prems Inr have
        "eval_loop task_suite run_task report ids (w, Json l, l) = (w', f', res)"
        by simp
      from Cons.IH[OF this] show ?thesis .
    next
      case False
      note step = Cons.prems[unfolded eval_loop_new_task[OF Inr False]]
      obtain w1 x where x: "run_task i t w = (w1, x)" by (cases "run_task i t w")
      show ?thesis
      proof (cases x)
        case (Inl e)
        with step x show ?thesis by auto
      next
        case r: (Inr r)
        show ?thesis
        proof (cases "report (l @ [(name t, r)])")
          case (Some e)
          with step x r show ?thesis by auto
        next
          case None
          with step x r have
            "eval_loop task_suite run_task report ids
               (w1, Json (l @ [(name t, r)]), l @ [(name t, r)]) = (w', f', res)"
            by simp
          from Cons.IH[OF this] show ?thesis
            by (metis append_prefixD)
        qed
      qed
    qed
  qed
qed

text \<open>
  Claim C1 (resumability). Whenever a first run of \<open>evaluate\<close> has ended without an
  exception, leaving the file \<open>f1\<close> and the dictionary \<open>l1\<close>, a second run on the
  file \<open>f1\<close> ends with the same dictionary and the same file. This holds for either
  LIBERO file (any \<open>report\<close>), any rollout \<open>run2\<close>, any world \<open>w2\<close> and any argument
  \<open>tasks2\<close> of the second run: every task is skipped, so no rollout runs (the world is
  returned as it was given) and nothing is printed or written.
\<close>

theorem evaluate_resume_idempotent:
  assumes "evaluate task_suite task_split run1 report1 tasks1 split (w, f) = (w1, f1, Inr l1)"
  shows "evaluate task_suite task_split run2 report2 tasks2 split (w2, f1) = (w2, f1, Inr l1)"
proof -
  obtain train_tasks test_tasks where sp: "task_split = (train_tasks, test_tasks)"
    by (cases task_split)
  let ?names = "if split = ''train'' then train_tasks else test_tasks"
  from assms sp obtain l0 ids where
    l0: "load_ledger f = Inr l0" and
    ids: "resolve_tasks (map name task_suite) ?names = Inr ids" and
    run: "eval_loop task_suite run1 report1 ids (w, f, l0) = (w1, f1, Inr l1)"
    by (auto simp: evaluate_def Let_def split: sum.splits)
  from eval_loop_done[OF run] have
    fl: "f1 = Json l1 \<or> (f1 = f \<and> l1 = l0)" and
    keys: "\<forall>i \<in> set ids. \<exists>t. get_task task_suite i = Inr t \<and> name t \<in> set (map fst l1)"
    by auto
  from fl l0 have "load_ledger f1 = Inr l1"
    by (auto simp: load_ledger_def)
  moreover have "eval_loop task_suite run2 report2 ids (w2, f1, l1) = (w2, f1, Inr l1)"
    by (rule eval_loop_skip_all[OF keys])
  ultimately show ?thesis using sp ids
    by (simp add: evaluate_def Let_def)
qed

text \<open>
  The first run of the second file on the example suite evaluates the one training task
  and writes it; the second run, started in another world, returns that world, file and
  dictionary.
\<close>

theorem evaluate_resume_idempotent_witness:
  "evaluate demo_suite demo_split demo_run print_ledger () ''train'' (0, Missing)
     = (1, Json [(''open_drawer'', 1 / 2)], Inr [(''open_drawer'', 1 / 2)]) \<and>
   evaluate demo_suite demo_split demo_run print_ledger () ''train''
       (7, Json [(''open_drawer'', 1 / 2)])
     = (7, Json [(''open_drawer'', 1 / 2)], Inr [(''open_drawer'', 1 / 2)])"
proof -
  have first: "evaluate demo_suite demo_split demo_run print_ledger () ''train'' (0, Missing)
     = (1, Json [(''open_drawer'', 1 / 2)], Inr [(''open_drawer'', 1 / 2)])"
    by (simp add: evaluate_def load_ledger_def demo_suite_def demo_split_def demo_run_def
      get_task_def print_ledger_def Let_def)
  from evaluate_resume_idempotent[OF first, of demo_run print_ledger "()" 7] first
  show ?thesis by simp
qed

text \<open>
  The dump after a task, where the \<^verbatim>\<open>print\<close> before it succeeds: when the loop reaches a
  task that is not yet a key, its rollout returns \<open>r\<close> and the \<^verbatim>\<open>print\<close> of the
  extended dictionary raises nothing, the rest of the list is processed from the state
  in which the file holds the old dictionary with the new entry appended, and the file
  at the end has that dictionary as its beginning. The \<^verbatim>\<open>print\<close> of the second file
  never raises; the one of the first file raises nothing when every value is a list or
  a string that is not empty.
\<close>

lemma eval_loop_dump_after_task:
  assumes "get_task task_suite task_id = Inr t"
    and "name t \<notin> set (map fst l)"
    and "run_task task_id t w = (w', Inr r)"
    and "report (l @ [(name t, r)]) = None"
    and "eval_loop task_suite run_task report (task_id # rest) (w, f, l) = (w'', f'', res)"
  shows "eval_loop task_suite run_task report (task_id # rest) (w, f, l)
           = eval_loop task_suite run_task report rest
               (w', Json (l @ [(name t, r)]), l @ [(name t, r)]) \<and>
         (\<exists>l'. f'' = Json l' \<and> prefix (l @ [(name t, r)]) l')"
proof -
  from assms(3,4) have eq: "eval_loop task_suite run_task report (task_id # rest) (w, f, l)
           = eval_loop task_suite run_task report rest
               (w', Json (l @ [(name t, r)]), l @ [(name t, r)])"
    unfolding eval_loop_new_task[OF assms(1,2)] by simp
  with assms(5) have "eval_loop task_suite run_task report rest
               (w', Json (l @ [(name t, r)]), l @ [(name t, r)]) = (w'', f'', res)"
    by simp
  then have "\<exists>l'. f'' = Json l' \<and> prefix (l @ [(name t, r)]) l'"
    by (rule eval_loop_file)
  with eq show ?thesis by blast
qed

lemma print_rates_lists:
  "\<forall>(k, v) \<in> set l. \<exists>x xs. v = JArray (x # xs) \<Longrightarrow> print_rates l = None"
  by (induction l) auto

text \<open>
  Claim C6 (durable record), at an input on which the first file misses it. The result
  file of an earlier run holds a bare number for \<^verbatim>\<open>old_task\<close>, the shape the second
  file writes. The first file evaluates the new task (the rollout runs: the world
  counts one call) and assigns its value, then line 127 raises \<^verbatim>\<open>TypeError\<close> on the
  old entry before the dump: the run ends with the error and the file is left without
  the new entry. The second file, on a file of the same shape, dumps the old entry and the new one.
\<close>

theorem ledger_dump_lost_on_bare_number_entry:
  "evaluate demo_suite demo_split demo_run_single print_rates () ''train''
       (0, Json [(''old_task'', JNumber (1 / 2))])
     = (1, Json [(''old_task'', JNumber (1 / 2))], Inl TypeError) \<and>
   evaluate demo_suite demo_split demo_run print_ledger () ''train''
       (0, Json [(''old_task'', 1 / 2)])
     = (1, Json [(''old_task'', 1 / 2), (''open_drawer'', 1 / 2)],
        Inr [(''old_task'', 1 / 2), (''open_drawer'', 1 / 2)])"
  by (simp add: evaluate_def load_ledger_def demo_suite_def demo_split_def demo_run_def
      demo_run_single_def task_entry_def get_task_def print_ledger_def Let_def)

text \<open>
  Claim C7 (load of a missing or malformed file), as the code has it. A missing file
  gives the empty dictionary, and \<open>evaluate\<close> then runs the loop from it. A file that
  \<^verbatim>\<open>json.load\<close> rejects is not treated as empty: the \<^verbatim>\<open>JSONDecodeError\<close> leaves
  \<open>evaluate\<close> before any task is looked at, and the file stays as it was.
\<close>

theorem load_missing_empty_malformed_raises:
  fixes run_task :: "nat \<Rightarrow> task \<Rightarrow> 'w \<Rightarrow> 'w \<times> (error + 'v)"
  shows
  "load_ledger (Missing :: 'v result_file) = Inr [] \<and>
   evaluate task_suite task_split run_task report tasks split (w, Missing)
     = (case resolve_tasks (map name task_suite)
              (if split = ''train'' then fst task_split else snd task_split) of
          Inl e \<Rightarrow> (w, Missing, Inl e)
        | Inr ids \<Rightarrow> eval_loop task_suite run_task report ids (w, Missing, [])) \<and>
   load_ledger (Malformed :: 'v result_file) = Inl JSONDecodeError \<and>
   evaluate task_suite task_split run_task report tasks split (w, Malformed)
     = (w, Malformed, Inl JSONDecodeError)"
  by (cases task_split) (simp add: evaluate_def load_ledger_def)

theorem load_missing_empty_malformed_raises_witness:
  "evaluate demo_suite demo_split demo_run print_ledger () ''test'' (0, Missing)
     = (1, Json [(''pick_bowl'', 1 / 2)], Inr [(''pick_bowl'', 1 / 2)]) \<and>
   evaluate demo_suite demo_split demo_run print_ledger () ''test'' (0, Malformed)
     = (0, Malformed, Inl JSONDecodeError)"
proof -
  note inst = load_missing_empty_malformed_raises
      [of demo_suite demo_split demo_run print_ledger "()" "''test''" 0]
  have ids: "resolve_tasks (map name demo_suite) (snd demo_split) = Inr [1]"
    by (simp add: demo_suite_def demo_split_def)
  have run: "eval_loop demo_suite demo_run print_ledger [1] (0, Missing, [])
     = (1, Json [(''pick_bowl'', 1 / 2)], Inr [(''pick_bowl'', 1 / 2)])"
    by (simp add: demo_suite_def demo_run_def get_task_def print_ledger_def Let_def)
  from inst have "evaluate demo_suite demo_split demo_run print_ledger () ''test'' (0, Missing)
     = eval_loop demo_suite demo_run print_ledger [1] (0, Missing, [])"
    by (simp add: ids del: eval_loop.simps)
  with run have "evaluate demo_suite demo_split demo_run print_ledger () ''test'' (0, Missing)
     = (1, Json [(''pick_bowl'', 1 / 2)], Inr [(''pick_bowl'', 1 / 2)])"
    by (simp only:)
  moreover from inst have
    "evaluate demo_suite demo_split demo_run print_ledger () ''test'' (0, Malformed)
     = (0, Malformed, Inl JSONDecodeError)"
    by blast
  ultimately show ?thesis by blast
qed

text \<open>
  The claim as the specification states it fails on a malformed file: the load does
  not give the empty dictionary, and the run on the example suite ends with the error.
\<close>

theorem load_malformed_counterexample:
  "load_ledger (Malformed :: real result_file) \<noteq> Inr [] \<and>
   evaluate demo_suite demo_split demo_run print_ledger () ''train'' (0, Malformed)
     = (0, Malformed, Inl JSONDecodeError)"
  by (simp add: evaluate_def load_ledger_def)

text \<open>
  Claim C9 (the argument \<open>tasks\<close> is ignored). Two calls of \<open>evaluate\<close> that differ
  only in the argument \<open>tasks\<close>, which may even be of different types, give the same
  result: the list that is evaluated is the one the split file gives for \<open>split\<close>.
\<close>

theorem evaluate_ignores_tasks:
  "evaluate task_suite task_split run_task report tasks split s
     = evaluate task_suite task_split run_task report tasks' split s"
  by (simp add: evaluate_def)

theorem evaluate_ignores_tasks_witness:
  "evaluate demo_suite demo_split demo_run print_ledger [0::nat] ''test'' (0, Missing)
     = evaluate demo_suite demo_split demo_run print_ledger [''open_drawer_demo.hdf5'']
         ''test'' (0, Missing)"
  by (rule evaluate_ignores_tasks)

section \<open>Properties of the vectorized rollout\<close>

text \<open>
  The loop over the slots leaves the two lists at their lengths, and sets at index \<open>i\<close>
  what lines 176-177 set when \<open>dones[i]\<close> holds.
\<close>

declare rollout_loop.simps [simp del] rollout_trace.simps [simp del]

lemma check_slots_length:
  "fold (check_slot ds step) ks (fin, len) = (fin', len') \<Longrightarrow>
   length fin' = length fin \<and> length len' = length len"
  by (induction ks arbitrary: fin len) (auto simp: check_slot_def split: if_splits)

lemma check_slots_nth:
  "fold (check_slot ds step) ks (fin, len) = (fin', len') \<Longrightarrow>
   i < length fin \<Longrightarrow> i < length len \<Longrightarrow>
   fin' ! i = (if i \<in> set ks \<and> ds i then True else fin ! i) \<and>
   len' ! i = (if i \<in> set ks \<and> ds i then min (step + 1) (len ! i) else len ! i)"
proof (induction ks arbitrary: fin len)
  case Nil
  then show ?case by simp
next
  case (Cons k ks)
  show ?case
  proof (cases "ds k")
    case False
    then have "check_slot ds step k (fin, len) = (fin, len)"
      by (simp add: check_slot_def)
    with Cons.prems have "fold (check_slot ds step) ks (fin, len) = (fin', len')"
      by simp
    from Cons.IH[OF this Cons.prems(2,3)] False show ?thesis by auto
  next
    case True
    let ?fin = "fin[k := True]" and ?len = "len[k := min (step + 1) (len ! k)]"
    from True have "check_slot ds step k (fin, len) = (?fin, ?len)"
      by (simp add: check_slot_def)
    with Cons.prems have "fold (check_slot ds step) ks (?fin, ?len) = (fin', len')"
      by simp
    from Cons.IH[OF this] Cons.prems(2,3) have
      "fin' ! i = (if i \<in> set ks \<and> ds i then True else ?fin ! i) \<and>
       len' ! i = (if i \<in> set ks \<and> ds i then min (step + 1) (?len ! i) else ?len ! i)"
      by simp
    with True Cons.prems(2,3) show ?thesis
      by (cases "i = k") auto
  qed
qed

lemma rollout_step_lengths:
  "length (finished_tasks (rollout_step ops n step st)) = length (finished_tasks st) \<and>
   length (episode_length (rollout_step ops n step st)) = length (episode_length st)"
proof -
  obtain m' actions att where m: "model_step ops (model st) (images st) = (m', actions, att)"
    by (cases "model_step ops (model st) (images st)")
  obtain e' obs' dones' where e: "venv_step ops (env st) actions = (e', obs', dones')"
    by (cases "venv_step ops (env st) actions")
  obtain fin len where
    f: "fold (check_slot dones' step) [0..<n] (finished_tasks st, episode_length st) = (fin, len)"
    by (cases "fold (check_slot dones' step) [0..<n] (finished_tasks st, episode_length st)")
  from check_slots_length[OF f] m e f show ?thesis
    by (simp add: rollout_step_def)
qed

lemma rollout_step_slot:
  assumes "length (finished_tasks st) = n" and "length (episode_length st) = n" and "i < n"
  shows "finished_tasks (rollout_step ops n step st) ! i
           = (dones (rollout_step ops n step st) i \<or> finished_tasks st ! i) \<and>
         episode_length (rollout_step ops n step st) ! i
           = (if dones (rollout_step ops n step st) i
              then min (step + 1) (episode_length st ! i) else episode_length st ! i)"
proof -
  obtain m' actions att where m: "model_step ops (model st) (images st) = (m', actions, att)"
    by (cases "model_step ops (model st) (images st)")
  obtain e' obs' dones' where e: "venv_step ops (env st) actions = (e', obs', dones')"
    by (cases "venv_step ops (env st) actions")
  obtain fin len where
    f: "fold (check_slot dones' step) [0..<n] (finished_tasks st, episode_length st) = (fin, len)"
    by (cases "fold (check_slot dones' step) [0..<n] (finished_tasks st, episode_length st)")
  from check_slots_nth[OF f, of i] assms m e f show ?thesis
    by (simp add: rollout_step_def)
qed

lemma rollout_step_attention:
  "length (attention_history (rollout_step ops n step st)) = Suc (length (attention_history st))"
proof -
  obtain m' actions att where m: "model_step ops (model st) (images st) = (m', actions, att)"
    by (cases "model_step ops (model st) (images st)")
  obtain e' obs' dones' where e: "venv_step ops (env st) actions = (e', obs', dones')"
    by (cases "venv_step ops (env st) actions")
  obtain fin len where
    f: "fold (check_slot dones' step) [0..<n] (finished_tasks st, episode_length st) = (fin, len)"
    by (cases "fold (check_slot dones' step) [0..<n] (finished_tasks st, episode_length st)")
  from m e f show ?thesis
    by (simp add: rollout_step_def)
qed

lemma observe_fields [simp]:
  "finished_tasks (observe st) = finished_tasks st"
  "episode_length (observe st) = episode_length st"
  "attention_history (observe st) = attention_history st"
  by (simp_all add: observe_def)

lemma trace_length:
  "length (rollout_trace ops n step st) \<le> max_step - step"
proof (induction ops n step st rule: rollout_trace.induct)
  case (1 ops n step st)
  show ?case
  proof (cases "step < max_step")
    case False
    then show ?thesis by (simp add: rollout_trace.simps[of ops n step st] Let_def)
  next
    case True
    show ?thesis
    proof (cases "all_finished (rollout_step ops n step st)")
      case fin: True
      with True show ?thesis by (simp add: rollout_trace.simps[of ops n step st] Let_def)
    next
      case nf: False
      from "1.IH"[OF True refl nf] True nf show ?thesis
        by (simp add: rollout_trace.simps[of ops n step st] Let_def)
    qed
  qed
qed

lemma trace_nonempty:
  "step < max_step \<Longrightarrow> rollout_trace ops n step st \<noteq> []"
  by (simp add: rollout_trace.simps[of ops n step st] Let_def)

lemma trace_nth:
  "b < length (rollout_trace ops n step st) \<Longrightarrow>
   rollout_trace ops n step st ! b
     = rollout_step ops n (step + b)
         (if b = 0 then st else observe (rollout_trace ops n step st ! (b - 1)))"
proof (induction ops n step st arbitrary: b rule: rollout_trace.induct)
  case (1 ops n step st)
  let ?st' = "rollout_step ops n step st"
  from "1.prems" have lt: "step < max_step"
    by (cases "step < max_step") (simp_all add: rollout_trace.simps[of ops n step st] Let_def)
  show ?case
  proof (cases "all_finished ?st'")
    case True
    with lt have "rollout_trace ops n step st = [?st']"
      by (simp add: rollout_trace.simps[of ops n step st] Let_def)
    with "1.prems" show ?thesis by simp
  next
    case False
    let ?tr' = "rollout_trace ops n (Suc step) (observe ?st')"
    from False lt have tr: "rollout_trace ops n step st = ?st' # ?tr'"
      by (simp add: rollout_trace.simps[of ops n step st] Let_def)
    show ?thesis
    proof (cases b)
      case 0
      with tr show ?thesis by simp
    next
      case (Suc b')
      with "1.prems" tr have "b' < length ?tr'" by simp
      from "1.IH"[OF lt refl False this] have
        "?tr' ! b' = rollout_step ops n (Suc step + b')
           (if b' = 0 then observe ?st' else observe (?tr' ! (b' - 1)))" .
      with tr Suc show ?thesis
        by (cases b') simp_all
    qed
  qed
qed

lemma trace_not_finished:
  "Suc b < length (rollout_trace ops n step st) \<Longrightarrow>
   \<not> all_finished (rollout_trace ops n step st ! b)"
proof (induction ops n step st arbitrary: b rule: rollout_trace.induct)
  case (1 ops n step st)
  let ?st' = "rollout_step ops n step st"
  from "1.prems" have lt: "step < max_step"
    by (cases "step < max_step") (simp_all add: rollout_trace.simps[of ops n step st] Let_def)
  show ?case
  proof (cases "all_finished ?st'")
    case True
    with lt have "rollout_trace ops n step st = [?st']"
      by (simp add: rollout_trace.simps[of ops n step st] Let_def)
    with "1.prems" show ?thesis by simp
  next
    case False
    let ?tr' = "rollout_trace ops n (Suc step) (observe ?st')"
    from False lt have tr: "rollout_trace ops n step st = ?st' # ?tr'"
      by (simp add: rollout_trace.simps[of ops n step st] Let_def)
    show ?thesis
    proof (cases b)
      case 0
      with tr False show ?thesis by simp
    next
      case (Suc b')
      with "1.prems" tr have "Suc b' < length ?tr'" by simp
      from "1.IH"[OF lt refl False this] tr Suc show ?thesis by simp
    qed
  qed
qed

lemma trace_early_exit:
  "length (rollout_trace ops n step st) < max_step - step \<Longrightarrow>
   all_finished (last (rollout_trace ops n step st))"
proof (induction ops n step st rule: rollout_trace.induct)
  case (1 ops n step st)
  let ?st' = "rollout_step ops n step st"
  from "1.prems" have lt: "step < max_step" by simp
  show ?case
  proof (cases "all_finished ?st'")
    case True
    with lt have "rollout_trace ops n step st = [?st']"
      by (simp add: rollout_trace.simps[of ops n step st] Let_def)
    with True show ?thesis by simp
  next
    case False
    let ?tr' = "rollout_trace ops n (Suc step) (observe ?st')"
    from False lt have tr: "rollout_trace ops n step st = ?st' # ?tr'"
      by (simp add: rollout_trace.simps[of ops n step st] Let_def)
    with "1.prems" have len: "length ?tr' < max_step - Suc step" by simp
    then have "?tr' \<noteq> []" by (intro trace_nonempty) simp
    with "1.IH"[OF lt refl False len] tr show ?thesis by simp
  qed
qed

lemma loop_last_trace:
  "rollout_loop ops n step st =
     (let tr = rollout_trace ops n step st
      in if tr = [] then st
         else if all_finished (last tr) then last tr else observe (last tr))"
proof (induction ops n step st rule: rollout_trace.induct)
  case (1 ops n step st)
  let ?st' = "rollout_step ops n step st"
  show ?case
  proof (cases "step < max_step")
    case False
    then show ?thesis
      by (simp add: rollout_trace.simps[of ops n step st] rollout_loop.simps[of ops n step st] Let_def)
  next
    case lt: True
    show ?thesis
    proof (cases "all_finished ?st'")
      case True
      with lt show ?thesis
        by (simp add: rollout_trace.simps[of ops n step st] rollout_loop.simps[of ops n step st] Let_def)
    next
      case False
      let ?tr' = "rollout_trace ops n (Suc step) (observe ?st')"
      from False lt have tr: "rollout_trace ops n step st = ?st' # ?tr'"
        by (simp add: rollout_trace.simps[of ops n step st] Let_def)
      from False lt have lp: "rollout_loop ops n step st
          = rollout_loop ops n (Suc step) (observe ?st')"
        by (simp add: rollout_loop.simps[of ops n step st] Let_def)
      from "1.IH"[OF lt refl False] lp tr False show ?thesis
        by (simp add: Let_def)
    qed
  qed
qed



text \<open>What one iteration does to a slot, read off the history.\<close>

lemma trace_slot_lengths:
  assumes "length (finished_tasks st) = n" and "length (episode_length st) = n"
  shows "b < length (rollout_trace ops n step st) \<Longrightarrow>
         length (finished_tasks (rollout_trace ops n step st ! b)) = n \<and>
         length (episode_length (rollout_trace ops n step st ! b)) = n"
proof (induction b)
  case 0
  from trace_nth[OF 0] assms show ?case
    by (simp add: rollout_step_lengths)
next
  case (Suc b)
  then have "b < length (rollout_trace ops n step st)" by simp
  from Suc.IH[OF this] trace_nth[OF Suc.prems] show ?case
    by (simp add: rollout_step_lengths)
qed

lemma trace_slot_step:
  assumes "length (finished_tasks st) = n" and "length (episode_length st) = n"
    and "b < length (rollout_trace ops n step st)" and "i < n"
  shows "finished_tasks (rollout_trace ops n step st ! b) ! i
           = (dones (rollout_trace ops n step st ! b) i \<or>
              finished_tasks (slot_before st (rollout_trace ops n step st) b) ! i) \<and>
         episode_length (rollout_trace ops n step st ! b) ! i
           = (if dones (rollout_trace ops n step st ! b) i
              then min (step + b + 1)
                     (episode_length (slot_before st (rollout_trace ops n step st) b) ! i)
              else episode_length (slot_before st (rollout_trace ops n step st) b) ! i)"
proof (cases b)
  case 0
  with trace_nth[OF assms(3)] rollout_step_slot[OF assms(1,2,4), of ops step]
  show ?thesis by (simp add: slot_before_def)
next
  case (Suc b')
  let ?tr = "rollout_trace ops n step st"
  from Suc assms(3) have "b' < length ?tr" by simp
  from trace_slot_lengths[OF assms(1,2) this] have
    l: "length (finished_tasks (observe (?tr ! b'))) = n"
       "length (episode_length (observe (?tr ! b'))) = n"
    by simp_all
  from trace_nth[OF assms(3)] Suc have
    "?tr ! b = rollout_step ops n (step + b) (observe (?tr ! b'))" by simp
  with rollout_step_slot[OF l assms(4), of ops "step + b"] Suc
  show ?thesis by (simp add: slot_before_def)
qed

lemma trace_finished_iff:
  assumes "length (finished_tasks st) = n" and "length (episode_length st) = n" and "i < n"
  shows "b < length (rollout_trace ops n step st) \<Longrightarrow>
         finished_tasks (rollout_trace ops n step st ! b) ! i
           = (finished_tasks st ! i \<or> (\<exists>a\<le>b. dones (rollout_trace ops n step st ! a) i))"
proof (induction b)
  case 0
  from trace_slot_step[OF assms(1,2) 0 assms(3)] show ?case
    by (auto simp: slot_before_def)
next
  case (Suc b)
  then have "b < length (rollout_trace ops n step st)" by simp
  from Suc.IH[OF this] trace_slot_step[OF assms(1,2) Suc.prems assms(3)] show ?case
    by (auto simp: slot_before_def le_Suc_eq)
qed

lemma trace_length_unreported:
  assumes "length (finished_tasks st) = n" and "length (episode_length st) = n" and "i < n"
  shows "b < length (rollout_trace ops n step st) \<Longrightarrow>
         \<forall>a\<le>b. \<not> dones (rollout_trace ops n step st ! a) i \<Longrightarrow>
         episode_length (rollout_trace ops n step st ! b) ! i = episode_length st ! i"
proof (induction b)
  case 0
  from trace_slot_step[OF assms(1,2) 0(1) assms(3)] 0(2) show ?case
    by (simp add: slot_before_def)
next
  case (Suc b)
  then have "b < length (rollout_trace ops n step st)" by simp
  from Suc.IH[OF this] Suc.prems(2) trace_slot_step[OF assms(1,2) Suc.prems(1) assms(3)]
  show ?case
    by (simp add: slot_before_def)
qed

lemma trace_length_bounds:
  assumes "length (finished_tasks st) = n" and "length (episode_length st) = n" and "i < n"
    and "1 \<le> episode_length st ! i" and "episode_length st ! i \<le> max_step"
  shows "b < length (rollout_trace ops n step st) \<Longrightarrow>
         1 \<le> episode_length (rollout_trace ops n step st ! b) ! i \<and>
         episode_length (rollout_trace ops n step st ! b) ! i \<le> max_step"
proof (induction b)
  case 0
  from trace_slot_step[OF assms(1,2) 0 assms(3)] assms(4,5) show ?case
    by (simp add: slot_before_def min_le_iff_disj)
next
  case (Suc b)
  then have "b < length (rollout_trace ops n step st)" by simp
  from Suc.IH[OF this] trace_slot_step[OF assms(1,2) Suc.prems assms(3)] show ?case
    by (simp add: slot_before_def min_le_iff_disj)
qed

lemma trace_length_frozen:
  assumes "length (finished_tasks st) = n" and "length (episode_length st) = n" and "i < n"
    and "dones (rollout_trace ops n step st ! a) i"
  shows "a \<le> b \<Longrightarrow> b < length (rollout_trace ops n step st) \<Longrightarrow>
         episode_length (rollout_trace ops n step st ! b) ! i
           = episode_length (rollout_trace ops n step st ! a) ! i"
proof (induction b rule: dec_induct)
  case base
  show ?case by simp
next
  case (step b)
  let ?tr = "rollout_trace ops n step st"
  from step.prems have b: "b < length ?tr" and a: "a < length ?tr"
    using step.hyps by simp_all
  from trace_slot_step[OF assms(1,2) a assms(3)] assms(4) have
    "episode_length (?tr ! a) ! i \<le> step + a + 1" by simp
  with step.hyps have "episode_length (?tr ! a) ! i \<le> step + Suc b + 1" by simp
  with step.IH[OF b] trace_slot_step[OF assms(1,2) step.prems assms(3)] show ?case
    by (simp add: slot_before_def)
qed

lemma trace_attention_length:
  "b < length (rollout_trace ops n step st) \<Longrightarrow>
   length (attention_history (rollout_trace ops n step st ! b))
     = length (attention_history st) + b + 1"
proof (induction b)
  case 0
  from trace_nth[OF 0] show ?case by (simp add: rollout_step_attention)
next
  case (Suc b)
  then have "b < length (rollout_trace ops n step st)" by simp
  from Suc.IH[OF this] trace_nth[OF Suc.prems] show ?case
    by (simp add: rollout_step_attention)
qed

lemma init_fields [simp]:
  "length (finished_tasks (rollout_init e m obs0 n)) = n"
  "length (episode_length (rollout_init e m obs0 n)) = n"
  "attention_history (rollout_init e m obs0 n) = []"
  "i < n \<Longrightarrow> finished_tasks (rollout_init e m obs0 n) ! i = False"
  "i < n \<Longrightarrow> episode_length (rollout_init e m obs0 n) ! i = max_step"
  by (simp_all add: rollout_init_def)

lemma history_nonempty: "rollout_history ops n e m obs0 \<noteq> []"
  unfolding rollout_history_def by (rule trace_nonempty) (simp add: max_step_def)

lemma history_length: "length (rollout_history ops n e m obs0) \<le> max_step"
  using trace_length[of ops n 0 "rollout_init e m obs0 n"] by (simp add: rollout_history_def)

lemma rollout_final:
  "finished_tasks (rollout ops n e m obs0) = finished_tasks (last (rollout_history ops n e m obs0)) \<and>
   episode_length (rollout ops n e m obs0) = episode_length (last (rollout_history ops n e m obs0)) \<and>
   attention_history (rollout ops n e m obs0)
     = attention_history (last (rollout_history ops n e m obs0)) \<and>
   all_finished (rollout ops n e m obs0) = all_finished (last (rollout_history ops n e m obs0))"
  using history_nonempty[of ops n e m obs0]
  by (simp add: rollout_def rollout_history_def loop_last_trace Let_def all_finished_def)

lemma history_slot_lengths:
  "b < length (rollout_history ops n e m obs0) \<Longrightarrow>
   length (finished_tasks (rollout_history ops n e m obs0 ! b)) = n \<and>
   length (episode_length (rollout_history ops n e m obs0 ! b)) = n"
  unfolding rollout_history_def by (rule trace_slot_lengths) simp_all

lemma history_slot_step:
  "b < length (rollout_history ops n e m obs0) \<Longrightarrow> i < n \<Longrightarrow>
   episode_length (rollout_history ops n e m obs0 ! b) ! i
     = (if dones (rollout_history ops n e m obs0 ! b) i
        then min (b + 1) (length_before (rollout_history ops n e m obs0) i b)
        else length_before (rollout_history ops n e m obs0) i b)"
  using trace_slot_step[of "rollout_init e m obs0 n" n b ops 0 i]
  by (simp add: rollout_history_def length_before_def slot_before_def)

lemma history_finished_iff:
  "b < length (rollout_history ops n e m obs0) \<Longrightarrow> i < n \<Longrightarrow>
   finished_tasks (rollout_history ops n e m obs0 ! b) ! i
     = (\<exists>a\<le>b. dones (rollout_history ops n e m obs0 ! a) i)"
  using trace_finished_iff[of "rollout_init e m obs0 n" n i b ops 0]
  by (simp add: rollout_history_def)

lemma history_unreported:
  "b < length (rollout_history ops n e m obs0) \<Longrightarrow> i < n \<Longrightarrow>
   \<forall>a\<le>b. \<not> dones (rollout_history ops n e m obs0 ! a) i \<Longrightarrow>
   episode_length (rollout_history ops n e m obs0 ! b) ! i = max_step"
  using trace_length_unreported[of "rollout_init e m obs0 n" n i b ops 0]
  by (simp add: rollout_history_def)

lemma history_bounds:
  "b < length (rollout_history ops n e m obs0) \<Longrightarrow> i < n \<Longrightarrow>
   1 \<le> episode_length (rollout_history ops n e m obs0 ! b) ! i \<and>
   episode_length (rollout_history ops n e m obs0 ! b) ! i \<le> max_step"
  using trace_length_bounds[of "rollout_init e m obs0 n" n i b ops 0]
  by (simp add: rollout_history_def max_step_def)

lemma history_frozen:
  "a \<le> b \<Longrightarrow> b < length (rollout_history ops n e m obs0) \<Longrightarrow> i < n \<Longrightarrow>
   dones (rollout_history ops n e m obs0 ! a) i \<Longrightarrow>
   episode_length (rollout_history ops n e m obs0 ! b) ! i
     = episode_length (rollout_history ops n e m obs0 ! a) ! i"
  using trace_length_frozen[of "rollout_init e m obs0 n" n i ops 0 a b]
  by (simp add: rollout_history_def)

lemma history_attention:
  "b < length (rollout_history ops n e m obs0) \<Longrightarrow>
   length (attention_history (rollout_history ops n e m obs0 ! b)) = b + 1"
  using trace_attention_length[of b ops n 0 "rollout_init e m obs0 n"]
  by (simp add: rollout_history_def)

lemma history_not_finished:
  "Suc b < length (rollout_history ops n e m obs0) \<Longrightarrow>
   \<not> all_finished (rollout_history ops n e m obs0 ! b)"
  unfolding rollout_history_def by (rule trace_not_finished)

lemma history_early_exit:
  "length (rollout_history ops n e m obs0) < max_step \<Longrightarrow>
   all_finished (last (rollout_history ops n e m obs0))"
  using trace_early_exit[of ops n 0 "rollout_init e m obs0 n"]
  by (simp add: rollout_history_def)

lemma history_last:
  "last (rollout_history ops n e m obs0)
     = rollout_history ops n e m obs0 ! (length (rollout_history ops n e m obs0) - 1)"
  using history_nonempty[of ops n e m obs0] by (simp add: last_conv_nth)

lemma all_finished_nth:
  "length (finished_tasks st) = n \<Longrightarrow> all_finished st = (\<forall>i<n. finished_tasks st ! i)"
  by (auto simp: all_finished_def list_all_length)

text \<open>
  Claim C2 (slot freezing). In the history of a rollout, if slot \<open>i\<close> reports done at
  step \<open>a\<close>, then at every step \<open>b\<close> from \<open>a\<close> on its flag in \<open>finished_tasks\<close> is
  true and its entry of \<open>episode_length\<close> is the minimum of \<open>a + 1\<close> and the length it
  had before step \<open>a\<close>, whatever the other slots do; the same holds of the state the
  rollout ends with. When step \<open>a\<close> is the first at which the slot reports done, that
  value is \<open>a + 1\<close>.
\<close>

theorem slot_frozen_once_done:
  fixes ops :: "('e, 'm, 'img, 'act, 'att) venv_ops"
  assumes "a \<le> b" and "b < length (rollout_history ops n e m obs0)" and "i < n"
    and "dones (rollout_history ops n e m obs0 ! a) i"
  shows "finished_tasks (rollout_history ops n e m obs0 ! b) ! i \<and>
         episode_length (rollout_history ops n e m obs0 ! b) ! i
           = min (a + 1) (length_before (rollout_history ops n e m obs0) i a) \<and>
         ((\<forall>c<a. \<not> dones (rollout_history ops n e m obs0 ! c) i) \<longrightarrow>
            episode_length (rollout_history ops n e m obs0 ! b) ! i = a + 1) \<and>
         finished_tasks (rollout ops n e m obs0) ! i \<and>
         episode_length (rollout ops n e m obs0) ! i
           = min (a + 1) (length_before (rollout_history ops n e m obs0) i a)"
proof -
  let ?H = "rollout_history ops n e m obs0"
  from assms have a: "a < length ?H" by simp
  have at_a: "episode_length (?H ! a) ! i = min (a + 1) (length_before ?H i a)"
    using history_slot_step[OF a assms(3)] assms(4) by simp
  have frozen: "episode_length (?H ! c) ! i = episode_length (?H ! a) ! i \<and>
      finished_tasks (?H ! c) ! i" if "a \<le> c" and "c < length ?H" for c
    using history_frozen[OF that assms(3,4)] history_finished_iff[OF that(2) assms(3)]
      that(1) assms(4)
    by auto
  have first: "episode_length (?H ! b) ! i = a + 1"
    if nd: "\<forall>c<a. \<not> dones (?H ! c) i"
  proof -
    have "length_before ?H i a = max_step"
    proof (cases a)
      case 0
      then show ?thesis by (simp add: length_before_def)
    next
      case (Suc a')
      with a have a': "a' < length ?H" by simp
      from nd Suc have "\<forall>c\<le>a'. \<not> dones (?H ! c) i" by simp
      from history_unreported[OF a' assms(3) this] Suc show ?thesis
        by (simp add: length_before_def)
    qed
    moreover from a history_length[of ops n e m obs0] have "a + 1 \<le> max_step" by simp
    ultimately show ?thesis using frozen[OF assms(1,2)] at_a by simp
  qed
  let ?z = "length ?H - 1"
  from a assms(1,2) have z: "a \<le> ?z" "?z < length ?H" by simp_all
  from rollout_final[of ops n e m obs0] history_last[of ops n e m obs0] have
    "finished_tasks (rollout ops n e m obs0) = finished_tasks (?H ! ?z)"
    "episode_length (rollout ops n e m obs0) = episode_length (?H ! ?z)"
    by simp_all
  with frozen[OF z] frozen[OF assms(1,2)] at_a first show ?thesis by simp
qed

text \<open>
  The first example pool with two slots: slot 0 first reports done at step 2, and at
  step 4 and at the end it is finished with length 3.
\<close>

theorem slot_frozen_once_done_witness:
  "finished_tasks (rollout_history demo_venv 2 0 () 0 ! 4) ! 0 \<and>
   episode_length (rollout_history demo_venv 2 0 () 0 ! 4) ! 0 = 3 \<and>
   finished_tasks (rollout demo_venv 2 0 () 0) ! 0 \<and>
   episode_length (rollout demo_venv 2 0 () 0) ! 0 = 3"
proof -
  have len: "(4::nat) < length (rollout_history demo_venv 2 0 () 0)"
    by code_simp
  have d: "dones (rollout_history demo_venv 2 0 () 0 ! 2) 0"
    by code_simp
  have n0: "\<not> dones (rollout_history demo_venv 2 0 () 0 ! 0) 0"
    by code_simp
  have n1: "\<not> dones (rollout_history demo_venv 2 0 () 0 ! 1) 0"
    by code_simp
  have nd: "\<forall>c<2. \<not> dones (rollout_history demo_venv 2 0 () 0 ! c) 0"
  proof (intro allI impI)
    fix c :: nat
    assume "c < 2"
    then have "c = 0 \<or> c = 1" by auto
    with n0 n1 show "\<not> dones (rollout_history demo_venv 2 0 () 0 ! c) 0" by auto
  qed
  have "(2::nat) \<le> 4" and "(0::nat) < 2" by simp_all
  from slot_frozen_once_done[OF this(1) len this(2) d] nd show ?thesis
    by simp
qed

text \<open>
  Claim C3 (end of the rollout). The rollout runs at least one and at most 600
  iterations, and calls the policy once in each. It goes on to a further iteration only
  from a state in which some slot is not finished, and it ends before the 600th only
  in a state in which all are; a state has all slots finished exactly when every slot
  has reported done at some step so far. A slot that reports done at no step of the
  rollout makes it run all 600 iterations, and ends not finished, with
  \<open>episode_length\<close> 600 and the outcome \<^verbatim>\<open>fail\<close>.
\<close>

theorem rollout_stops_at_all_finished_or_budget:
  fixes ops :: "('e, 'm, 'img, 'act, 'att) venv_ops"
  shows
  "1 \<le> length (rollout_history ops n e m obs0) \<and>
   length (rollout_history ops n e m obs0) \<le> 600 \<and>
   length (attention_history (rollout ops n e m obs0)) = length (rollout_history ops n e m obs0) \<and>
   (\<forall>b. Suc b < length (rollout_history ops n e m obs0) \<longrightarrow>
      \<not> all_finished (rollout_history ops n e m obs0 ! b)) \<and>
   (length (rollout_history ops n e m obs0) < 600 \<longrightarrow> all_finished (rollout ops n e m obs0)) \<and>
   (\<forall>b<length (rollout_history ops n e m obs0).
      all_finished (rollout_history ops n e m obs0 ! b)
        = (\<forall>i<n. \<exists>a\<le>b. dones (rollout_history ops n e m obs0 ! a) i)) \<and>
   (\<forall>i<n. (\<forall>b<length (rollout_history ops n e m obs0).
               \<not> dones (rollout_history ops n e m obs0 ! b) i) \<longrightarrow>
      length (rollout_history ops n e m obs0) = 600 \<and>
      \<not> finished_tasks (rollout ops n e m obs0) ! i \<and>
      episode_length (rollout ops n e m obs0) ! i = 600 \<and>
      slot_result (rollout ops n e m obs0) i = ''fail'')"
proof -
  let ?H = "rollout_history ops n e m obs0"
  let ?z = "length ?H - 1"
  have ne: "?H \<noteq> []" by (rule history_nonempty)
  then have z: "?z < length ?H" by simp
  note fin = rollout_final[of ops n e m obs0, unfolded history_last]
  have c1: "1 \<le> length ?H" using ne by (cases ?H) simp_all
  have c2: "length ?H \<le> 600" using history_length[of ops n e m obs0] by (simp add: max_step_def)
  have c3: "length (attention_history (rollout ops n e m obs0)) = length ?H"
    using history_attention[OF z] fin c1 by simp
  have c4: "\<not> all_finished (?H ! b)" if "Suc b < length ?H" for b
    using that by (rule history_not_finished)
  have c5: "all_finished (rollout ops n e m obs0)" if "length ?H < 600"
    using history_early_exit[of ops n e m obs0] that rollout_final[of ops n e m obs0]
    by (simp add: max_step_def)
  have c6: "all_finished (?H ! b) = (\<forall>i<n. \<exists>a\<le>b. dones (?H ! a) i)" if b: "b < length ?H" for b
  proof -
    from history_slot_lengths[OF b] have "length (finished_tasks (?H ! b)) = n" by simp
    then have "all_finished (?H ! b) = (\<forall>i<n. finished_tasks (?H ! b) ! i)"
      by (rule all_finished_nth)
    also have "\<dots> = (\<forall>i<n. \<exists>a\<le>b. dones (?H ! a) i)"
      using history_finished_iff[OF b] by simp
    finally show ?thesis .
  qed
  have c7: "length ?H = 600 \<and> \<not> finished_tasks (rollout ops n e m obs0) ! i \<and>
      episode_length (rollout ops n e m obs0) ! i = 600 \<and>
      slot_result (rollout ops n e m obs0) i = ''fail''"
    if i: "i < n" and nd: "\<forall>b<length ?H. \<not> dones (?H ! b) i" for i
  proof -
    from nd z have nd': "\<forall>a\<le>?z. \<not> dones (?H ! a) i" by simp
    from history_finished_iff[OF z i] nd' have
      nf: "\<not> finished_tasks (?H ! ?z) ! i" by simp
    from history_unreported[OF z i nd'] have
      len: "episode_length (?H ! ?z) ! i = 600" by (simp add: max_step_def)
    have "length ?H = 600"
    proof (rule ccontr)
      assume "length ?H \<noteq> 600"
      with c2 have "length ?H < 600" by simp
      from c5[OF this] fin have "all_finished (?H ! ?z)" by simp
      with c6[OF z] i obtain a where "a \<le> ?z" "dones (?H ! a) i" by auto
      with nd z show False by simp
    qed
    with nf len fin show ?thesis by (simp add: slot_result_def)
  qed
  from c1 c2 c3 c4 c5 c6 c7 show ?thesis by blast
qed

text \<open>
  The second example pool: slot 1 never reports done, so the rollout runs 600
  iterations and records a failure of length 600 for it. The first example pool ends
  after five iterations, with all slots finished.
\<close>

lemma idle_dones:
  "dones (rollout_step idle_venv n step st) k = (k = 0 \<and> env st = 2)"
  by (simp add: rollout_step_def idle_venv_def split: prod.splits)

lemma idle_silent:
  "b < length (rollout_history idle_venv 2 0 () 0) \<Longrightarrow>
   \<not> dones (rollout_history idle_venv 2 0 () 0 ! b) 1"
  using trace_nth[of b idle_venv 2 0 "rollout_init 0 () 0 2"]
  by (simp add: rollout_history_def idle_dones)

theorem rollout_stops_at_all_finished_or_budget_witness:
  "length (rollout_history idle_venv 2 0 () 0) = 600 \<and>
   \<not> finished_tasks (rollout idle_venv 2 0 () 0) ! 1 \<and>
   episode_length (rollout idle_venv 2 0 () 0) ! 1 = 600 \<and>
   slot_result (rollout idle_venv 2 0 () 0) 1 = ''fail'' \<and>
   length (rollout_history demo_venv 2 0 () 0) = 5 \<and>
   all_finished (rollout demo_venv 2 0 () 0)"
proof -
  have five: "length (rollout_history demo_venv 2 0 () 0) = 5"
    by code_simp
  from rollout_stops_at_all_finished_or_budget[of demo_venv 2 0 "()" 0] five
  have a: "all_finished (rollout demo_venv 2 0 () 0)" by simp
  have "(1::nat) < 2" by simp
  with rollout_stops_at_all_finished_or_budget[of idle_venv 2 0 "()" 0] idle_silent
  have "length (rollout_history idle_venv 2 0 () 0) = 600 \<and>
   \<not> finished_tasks (rollout idle_venv 2 0 () 0) ! 1 \<and>
   episode_length (rollout idle_venv 2 0 () 0) ! 1 = 600 \<and>
   slot_result (rollout idle_venv 2 0 () 0) 1 = ''fail''"
    by blast
  with five a show ?thesis by simp
qed

text \<open>
  Claim C10 (bounds). At every step of a rollout and at its end, the recorded length of
  every slot lies between 1 and 600. The success rate is defined whenever there is at
  least one slot (with none, line 183 divides by zero and nothing is recorded), and a
  rate that is recorded lies between 0 and 1.
\<close>

theorem episode_length_and_rate_bounds:
  fixes ops :: "('e, 'm, 'img, 'act, 'att) venv_ops"
  shows
  "(\<forall>i<n. 1 \<le> episode_length (rollout ops n e m obs0) ! i \<and>
           episode_length (rollout ops n e m obs0) ! i \<le> 600) \<and>
   (\<forall>b<length (rollout_history ops n e m obs0). \<forall>i<n.
      1 \<le> episode_length (rollout_history ops n e m obs0 ! b) ! i \<and>
      episode_length (rollout_history ops n e m obs0 ! b) ! i \<le> 600) \<and>
   (0 < n \<longrightarrow> (\<exists>r. success_rate (finished_tasks (rollout ops n e m obs0)) n = Inr r)) \<and>
   (\<forall>r. success_rate (finished_tasks (rollout ops n e m obs0)) n = Inr r \<longrightarrow> 0 \<le> r \<and> r \<le> 1)"
proof -
  let ?H = "rollout_history ops n e m obs0"
  let ?z = "length ?H - 1"
  have z: "?z < length ?H" using history_nonempty[of ops n e m obs0] by simp
  note fin = rollout_final[of ops n e m obs0, unfolded history_last]
  have b: "1 \<le> episode_length (?H ! b) ! i \<and> episode_length (?H ! b) ! i \<le> 600"
    if "b < length ?H" and "i < n" for b i
    using history_bounds[OF that] by (simp add: max_step_def)
  have len: "length (finished_tasks (rollout ops n e m obs0)) = n"
    using history_slot_lengths[OF z] fin by simp
  have r: "0 \<le> r \<and> r \<le> 1" if "success_rate (finished_tasks (rollout ops n e m obs0)) n = Inr r" for r
  proof -
    from that have n: "0 < n" and
      r: "r = real (length (filter (\<lambda>b. b) (finished_tasks (rollout ops n e m obs0)))) / real n"
      by (auto simp: success_rate_def split: if_splits)
    have "length (filter (\<lambda>b. b) (finished_tasks (rollout ops n e m obs0)))
        \<le> length (finished_tasks (rollout ops n e m obs0))"
      by (rule length_filter_le)
    with len have
      "length (filter (\<lambda>b. b) (finished_tasks (rollout ops n e m obs0))) \<le> n" by simp
    with n r show ?thesis by simp
  qed
  from b[OF z] fin b r show ?thesis by (simp add: success_rate_def)
qed

text \<open>The first example pool: slot 1 ends with a length in range, and the rate is recorded.\<close>

theorem episode_length_and_rate_bounds_witness:
  "1 \<le> episode_length (rollout demo_venv 2 0 () 0) ! 1 \<and>
   episode_length (rollout demo_venv 2 0 () 0) ! 1 \<le> 600 \<and>
   (\<exists>r. success_rate (finished_tasks (rollout demo_venv 2 0 () 0)) 2 = Inr r \<and>
        0 \<le> r \<and> r \<le> 1)"
proof -
  note inst = episode_length_and_rate_bounds[of 2 demo_venv 0 "()" 0]
  have "(1::nat) < 2" and "(0::nat) < 2" by simp_all
  with inst have
    "1 \<le> episode_length (rollout demo_venv 2 0 () 0) ! 1 \<and>
     episode_length (rollout demo_venv 2 0 () 0) ! 1 \<le> 600"
    by blast
  moreover from inst \<open>(0::nat) < 2\<close> obtain r where
    "success_rate (finished_tasks (rollout demo_venv 2 0 () 0)) 2 = Inr r" by blast
  moreover from this inst have "0 \<le> r \<and> r \<le> 1" by blast
  ultimately show ?thesis by blast
qed


section \<open>Properties of the single-environment episode\<close>

declare episode_loop.simps [simp del]

lemma episode_step_reward:
  "reward (episode_step ops st) = Some (step_reward ops st)"
  by (simp add: episode_step_def step_reward_def split: prod.splits)

lemma episode_loop_exit:
  "t < 600 \<Longrightarrow>
   \<exists>k. t + k < 600 \<and>
       episode_loop ops t st = (episode_step ops ^^ Suc k) st \<and>
       (\<forall>j<k. \<not> done_flag ((episode_step ops ^^ Suc j) st)) \<and>
       (done_flag ((episode_step ops ^^ Suc k) st) \<or> t + Suc k = 600)"
proof (induction ops t st rule: episode_loop.induct)
  case (1 ops t st)
  let ?st' = "episode_step ops st"
  show ?case
  proof (cases "done_flag ?st'")
    case True
    with "1.prems" have "episode_loop ops t st = ?st'"
      by (simp add: episode_loop.simps[of ops t st] Let_def)
    with True "1.prems" show ?thesis
      by (intro exI[of _ 0]) simp
  next
    case False
    with "1.prems" have lp: "episode_loop ops t st = episode_loop ops (Suc t) ?st'"
      by (simp add: episode_loop.simps[of ops t st] Let_def)
    show ?thesis
    proof (cases "Suc t < 600")
      case True
      from "1.IH"[OF "1.prems" refl False True] obtain k where
        k: "Suc t + k < 600"
           "episode_loop ops (Suc t) ?st' = (episode_step ops ^^ Suc k) ?st'"
           "\<forall>j<k. \<not> done_flag ((episode_step ops ^^ Suc j) ?st')"
           "done_flag ((episode_step ops ^^ Suc k) ?st') \<or> Suc t + Suc k = 600"
        by blast
      have sw: "(episode_step ops ^^ Suc j) ?st' = (episode_step ops ^^ Suc (Suc j)) st" for j
        by (simp add: funpow_swap1)
      have "\<forall>j<Suc k. \<not> done_flag ((episode_step ops ^^ Suc j) st)"
      proof (intro allI impI)
        fix j assume j: "j < Suc k"
        show "\<not> done_flag ((episode_step ops ^^ Suc j) st)"
        proof (cases j)
          case 0
          with False show ?thesis by simp
        next
          case (Suc j')
          with j k(3) have "\<not> done_flag ((episode_step ops ^^ Suc j') ?st')" by simp
          then have "\<not> done_flag ((episode_step ops ^^ Suc (Suc j')) st)" by (metis sw)
          then show ?thesis unfolding Suc .
        qed
      qed
      moreover from k(2) lp have
        "episode_loop ops t st = (episode_step ops ^^ Suc (Suc k)) st"
        by (metis sw)
      moreover from k(4) have
        "done_flag ((episode_step ops ^^ Suc (Suc k)) st) \<or> Suc t + Suc k = 600"
        by (metis sw)
      then have
        "done_flag ((episode_step ops ^^ Suc (Suc k)) st) \<or> t + Suc (Suc k) = 600"
        by simp
      moreover from k(1) have "t + Suc k < 600" by simp
      ultimately show ?thesis by blast
    next
      case nlt: False
      then have "episode_loop ops (Suc t) ?st' = ?st'"
        by (simp add: episode_loop.simps[of ops "Suc t"])
      with lp nlt "1.prems" show ?thesis
        by (intro exI[of _ 0]) simp
    qed
  qed
qed

text \<open>
  Claim C8 (success of a single-environment episode). The loop ends after the step
  with index \<open>k\<close>, below 600, which is the first at which \<^verbatim>\<open>env.step\<close> returns
  \<^verbatim>\<open>done\<close>, or is step 599 when none does. The episode raises no error, and its
  success is true exactly when the reward that step returned is greater than zero.
\<close>

theorem success_iff_exit_reward_positive:
  "\<exists>k<600.
     episode_loop ops 0 (episode_init e m image0)
       = (episode_step ops ^^ Suc k) (episode_init e m image0) \<and>
     (\<forall>j<k. \<not> done_flag ((episode_step ops ^^ Suc j) (episode_init e m image0))) \<and>
     (done_flag ((episode_step ops ^^ Suc k) (episode_init e m image0)) \<or> Suc k = 600) \<and>
     run_episode ops e m image0
       = Inr (0 < step_reward ops ((episode_step ops ^^ k) (episode_init e m image0)))"
proof -
  have "(0::nat) < 600" by simp
  from episode_loop_exit[OF this, of ops "episode_init e m image0"] obtain k where
    k: "k < 600"
       "episode_loop ops 0 (episode_init e m image0)
          = (episode_step ops ^^ Suc k) (episode_init e m image0)"
       "\<forall>j<k. \<not> done_flag ((episode_step ops ^^ Suc j) (episode_init e m image0))"
       "done_flag ((episode_step ops ^^ Suc k) (episode_init e m image0)) \<or> Suc k = 600"
    by auto
  from k(2) have
    "run_episode ops e m image0
       = Inr (0 < step_reward ops ((episode_step ops ^^ k) (episode_init e m image0)))"
    by (simp add: run_episode_def episode_success_def episode_step_reward)
  with k show ?thesis by blast
qed

text \<open>
  The example simulator: the step taken in state 3 ends the episode with reward 1, so
  the episode succeeds after four steps (five images).
\<close>

theorem success_iff_exit_reward_positive_witness:
  "(\<exists>k<600.
     episode_loop demo_single 0 (episode_init 0 () 0)
       = (episode_step demo_single ^^ Suc k) (episode_init 0 () 0) \<and>
     (\<forall>j<k. \<not> done_flag ((episode_step demo_single ^^ Suc j) (episode_init 0 () 0))) \<and>
     (done_flag ((episode_step demo_single ^^ Suc k) (episode_init 0 () 0)) \<or> Suc k = 600) \<and>
     run_episode demo_single 0 () 0
       = Inr (0 < step_reward demo_single ((episode_step demo_single ^^ k) (episode_init 0 () 0)))) \<and>
   run_episode demo_single 0 () 0 = Inr True \<and>
   length (frames (episode_loop demo_single 0 (episode_init 0 () 0))) = 5"
proof -
  have "run_episode demo_single 0 () 0 = Inr True"
    by code_simp
  moreover have "length (frames (episode_loop demo_single 0 (episode_init 0 () 0))) = 5"
    by code_simp
  ultimately show ?thesis
    using success_iff_exit_reward_positive[of demo_single 0 "()" 0] by blast
qed

section \<open>Properties of the SimplerEnv episode\<close>

lemma simpler_while_running:
  "\<not> (truncated st \<or> success st) \<Longrightarrow>
   simpler_while ops st = simpler_while ops (simpler_iter ops st)"
  by (subst simpler_while.simps) simp

lemma simpler_while_ended:
  "truncated st \<or> success st \<Longrightarrow> simpler_while ops st = Some st"
  by (subst simpler_while.simps) simp

text \<open>
  Claim C4 (termination gating). In a running episode whose subtask is not the final
  one, a step at which the policy predicts termination calls
  \<^verbatim>\<open>advance_to_next_subtask\<close> and then \<^verbatim>\<open>env.step\<close> on the advanced environment, leaves
  \<open>predicted_terminated\<close> false and counts as a step. The prediction does not end the
  episode: the loop goes on from the state this step leaves, and it ends there only if
  that \<^verbatim>\<open>env.step\<close> reported success or truncation; otherwise a further step is
  taken.
\<close>

theorem terminate_on_nonfinal_subtask_advances:
  assumes "\<not> (truncated st \<or> success st)"
    and "0 < terminate_episode (policy_action ops st)"
    and "\<not> is_final_subtask st"
  shows "simpler_while ops st = simpler_while ops (simpler_iter ops st) \<and>
         \<not> predicted_terminated (simpler_iter ops st) \<and>
         timestep (simpler_iter ops st) = timestep st + 1 \<and>
         (case simpler_step ops (advance_to_next_subtask ops (senv st))
                 (action_vector (policy_action ops st)) of
            (e2, obs', reward', success', truncated') \<Rightarrow>
              senv (simpler_iter ops st) = e2 \<and>
              success (simpler_iter ops st) = success' \<and>
              truncated (simpler_iter ops st) = truncated' \<and>
              simpler_while ops st
                = (if truncated' \<or> success' then Some (simpler_iter ops st)
                   else simpler_while ops (simpler_iter ops (simpler_iter ops st))))"
proof -
  obtain m' a where p: "policy_step ops (smodel st) (simage st) (instruction st) = (m', a)"
    by (cases "policy_step ops (smodel st) (simage st) (instruction st)")
  then have a: "policy_action ops st = a" by (simp add: policy_action_def)
  obtain e2 obs' reward' success' truncated' where
    s: "simpler_step ops (advance_to_next_subtask ops (senv st)) (action_vector a)
          = (e2, obs', reward', success', truncated')"
    by (cases "simpler_step ops (advance_to_next_subtask ops (senv st)) (action_vector a)")
  from p s a assms(2,3) have it:
    "\<not> predicted_terminated (simpler_iter ops st)"
    "timestep (simpler_iter ops st) = timestep st + 1"
    "senv (simpler_iter ops st) = e2"
    "success (simpler_iter ops st) = success'"
    "truncated (simpler_iter ops st) = truncated'"
    by (simp_all add: simpler_iter_def Let_def)
  have w: "simpler_while ops st = simpler_while ops (simpler_iter ops st)"
    using assms(1) by (rule simpler_while_running)
  have "simpler_while ops (simpler_iter ops st)
      = (if truncated' \<or> success' then Some (simpler_iter ops st)
         else simpler_while ops (simpler_iter ops (simpler_iter ops st)))"
    using it(4,5) simpler_while_running[of "simpler_iter ops st" ops]
      simpler_while_ended[of "simpler_iter ops st" ops]
    by auto
  with w it s a show ?thesis by simp
qed

text \<open>
  Claim C5 (predicted termination on the final subtask), as the code has it. In a
  running episode whose subtask is the final one, a step at which the policy predicts
  termination sets \<open>predicted_terminated\<close>, does not advance the environment and
  still calls \<^verbatim>\<open>env.step\<close>. The condition of the loop (line 119) does not read
  \<open>predicted_terminated\<close>: the loop ends after this step only if \<^verbatim>\<open>env.step\<close>
  reported success or truncation, and otherwise takes a further step.
\<close>

theorem terminate_on_final_subtask_steps_on:
  assumes "\<not> (truncated st \<or> success st)"
    and "0 < terminate_episode (policy_action ops st)"
    and "is_final_subtask st"
  shows "simpler_while ops st = simpler_while ops (simpler_iter ops st) \<and>
         predicted_terminated (simpler_iter ops st) \<and>
         timestep (simpler_iter ops st) = timestep st + 1 \<and>
         (case simpler_step ops (senv st) (action_vector (policy_action ops st)) of
            (e2, obs', reward', success', truncated') \<Rightarrow>
              senv (simpler_iter ops st) = e2 \<and>
              success (simpler_iter ops st) = success' \<and>
              truncated (simpler_iter ops st) = truncated' \<and>
              simpler_while ops st
                = (if truncated' \<or> success' then Some (simpler_iter ops st)
                   else simpler_while ops (simpler_iter ops (simpler_iter ops st))))"
proof -
  obtain m' a where p: "policy_step ops (smodel st) (simage st) (instruction st) = (m', a)"
    by (cases "policy_step ops (smodel st) (simage st) (instruction st)")
  then have a: "policy_action ops st = a" by (simp add: policy_action_def)
  obtain e2 obs' reward' success' truncated' where
    s: "simpler_step ops (senv st) (action_vector a)
          = (e2, obs', reward', success', truncated')"
    by (cases "simpler_step ops (senv st) (action_vector a)")
  from p s a assms(2,3) have it:
    "predicted_terminated (simpler_iter ops st)"
    "timestep (simpler_iter ops st) = timestep st + 1"
    "senv (simpler_iter ops st) = e2"
    "success (simpler_iter ops st) = success'"
    "truncated (simpler_iter ops st) = truncated'"
    by (simp_all add: simpler_iter_def Let_def)
  have w: "simpler_while ops st = simpler_while ops (simpler_iter ops st)"
    using assms(1) by (rule simpler_while_running)
  have "simpler_while ops (simpler_iter ops st)
      = (if truncated' \<or> success' then Some (simpler_iter ops st)
         else simpler_while ops (simpler_iter ops (simpler_iter ops st)))"
    using it(4,5) simpler_while_running[of "simpler_iter ops st" ops]
      simpler_while_ended[of "simpler_iter ops st" ops]
    by auto
  with w it s a show ?thesis by simp
qed

text \<open>
  The example task started in its first subtask: the first step advances it to the
  final subtask and steps it, and the episode goes on to end after three steps.
\<close>

theorem terminate_on_nonfinal_subtask_advances_witness:
  "\<not> is_final_subtask (simpler_init demo_simpler (0, 0) () ()) \<and>
   0 < terminate_episode (policy_action demo_simpler (simpler_init demo_simpler (0, 0) () ())) \<and>
   \<not> predicted_terminated (simpler_iter demo_simpler (simpler_init demo_simpler (0, 0) () ())) \<and>
   senv (simpler_iter demo_simpler (simpler_init demo_simpler (0, 0) () ())) = (1, 1) \<and>
   simpler_while demo_simpler (simpler_init demo_simpler (0, 0) () ())
     = simpler_while demo_simpler
         (simpler_iter demo_simpler (simpler_init demo_simpler (0, 0) () ())) \<and>
   map_option timestep (simpler_while demo_simpler (simpler_init demo_simpler (0, 0) () ()))
     = Some 3"
proof -
  let ?st = "simpler_init demo_simpler (0, 0) () ()"
  have a: "\<not> (truncated ?st \<or> success ?st)"
    by (simp add: simpler_init_def)
  have b: "0 < terminate_episode (policy_action demo_simpler ?st)"
    by (simp add: demo_simpler_def policy_action_def)
  have c: "\<not> is_final_subtask ?st"
    by (simp add: simpler_init_def demo_simpler_def)
  have d: "simpler_step demo_simpler (advance_to_next_subtask demo_simpler (senv ?st))
             (action_vector (policy_action demo_simpler ?st))
           = ((1, 1), (), 0, False, False)"
    by (simp add: simpler_init_def demo_simpler_def)
  have e: "map_option timestep (simpler_while demo_simpler ?st) = Some 3"
    by code_simp
  note inst = terminate_on_nonfinal_subtask_advances[OF a b c, unfolded d]
  from inst b c e show ?thesis
    by (simp (no_asm_use) only: prod.case simp_thms if_False) blast
qed

text \<open>The example task started in its final subtask: a second step follows the first.\<close>

theorem terminate_on_final_subtask_steps_on_witness:
  "is_final_subtask (simpler_init demo_simpler (1, 0) () ()) \<and>
   0 < terminate_episode (policy_action demo_simpler (simpler_init demo_simpler (1, 0) () ())) \<and>
   predicted_terminated (simpler_iter demo_simpler (simpler_init demo_simpler (1, 0) () ())) \<and>
   senv (simpler_iter demo_simpler (simpler_init demo_simpler (1, 0) () ())) = (1, 1) \<and>
   simpler_while demo_simpler (simpler_init demo_simpler (1, 0) () ())
     = simpler_while demo_simpler
         (simpler_iter demo_simpler
           (simpler_iter demo_simpler (simpler_init demo_simpler (1, 0) () ())))"
proof -
  let ?st = "simpler_init demo_simpler (1, 0) () ()"
  have a: "\<not> (truncated ?st \<or> success ?st)"
    by (simp add: simpler_init_def)
  have b: "0 < terminate_episode (policy_action demo_simpler ?st)"
    by (simp add: demo_simpler_def policy_action_def)
  have c: "is_final_subtask ?st"
    by (simp add: simpler_init_def demo_simpler_def)
  have d: "simpler_step demo_simpler (senv ?st)
             (action_vector (policy_action demo_simpler ?st))
           = ((1, 1), (), 0, False, False)"
    by (simp add: simpler_init_def demo_simpler_def)
  note inst = terminate_on_final_subtask_steps_on[OF a b c, unfolded d]
  from inst b c show ?thesis
    by (simp (no_asm_use) only: prod.case simp_thms if_False) blast
qed

text \<open>
  The claim as the specification states it fails on the example task: started in the
  final subtask, the policy predicts termination at the first step, yet the loop does
  not end with the state that step leaves; it ends after three steps, when the
  environment reports success.
\<close>

theorem terminate_on_final_subtask_counterexample:
  "is_final_subtask (simpler_init demo_simpler (1, 0) () ()) \<and>
   0 < terminate_episode (policy_action demo_simpler (simpler_init demo_simpler (1, 0) () ())) \<and>
   predicted_terminated (simpler_iter demo_simpler (simpler_init demo_simpler (1, 0) () ())) \<and>
   simpler_while demo_simpler (simpler_init demo_simpler (1, 0) () ())
     \<noteq> Some (simpler_iter demo_simpler (simpler_init demo_simpler (1, 0) () ())) \<and>
   map_option timestep (simpler_while demo_simpler (simpler_init demo_simpler (1, 0) () ()))
     = Some 3"
  by code_simp

end
